theory Spec2Isabelle
  imports Complex_Main "HOL-Library.Sublist"
begin

section \<open>Strings and text measurement\<close>

text \<open>
  The renderer (\<open>ImageGenerator\<close>, the version with \<open>wrapText\<close>, \<open>measureWrapped\<close> and
  \<open>normalizeFontFamily\<close>) works on JavaScript strings and numbers. A string is modelled as a
  \<open>string\<close> whose elements are the units the source iterates over (\<open>for (const ch of word)\<close>);
  a JavaScript number is modelled as a \<open>real\<close>, so rounding of IEEE doubles and the values
  NaN and Infinity are outside the model.

  \<open>ctx.measureText(s).width\<close> is a service of the canvas. It depends on the font that was
  last assigned to \<open>ctx.font\<close>, which every function of the source sets from a font size and a
  font family before it measures. The model passes that pair explicitly.
\<close>

type_synonym font = "real \<times> string"

type_synonym measureText = "font \<Rightarrow> string \<Rightarrow> real"

definition PARA_BREAK :: string where
  "PARA_BREAK = ''__PARA_BREAK__''"

text \<open>White space as \<open>String.prototype.trim\<close> and the regular expression class \<open>\s\<close> see it,
  for the code points below 256: TAB, LF, VT, FF, CR, SPACE and NBSP.\<close>

definition is_js_space :: "char \<Rightarrow> bool" where
  "is_js_space c = (c \<in> set [CHR 0x09, CHR 0x0A, CHR 0x0B, CHR 0x0C, CHR 0x0D, CHR 0x20, CHR 0xA0])"

definition trim :: "string \<Rightarrow> string" where
  "trim s = rev (dropWhile is_js_space (rev (dropWhile is_js_space s)))"

text \<open>\<open>s.split(sep)\<close> for a one-character separator: \<open>k\<close> separators give \<open>k + 1\<close> pieces,
  and the empty string gives one empty piece.\<close>

fun split_str :: "char \<Rightarrow> string \<Rightarrow> string list" where
  "split_str sep [] = [[]]"
| "split_str sep (c # cs) =
     (if c = sep then [] # split_str sep cs
      else (case split_str sep cs of [] \<Rightarrow> [[c]] | p # ps \<Rightarrow> (c # p) # ps))"

section \<open>wrapText\<close>

record wrapResult =
  lines :: "string list"
  paragraphCount :: nat

text \<open>
  The closures of \<open>wrapText\<close> share the variables \<open>allLines\<close> and \<open>currentLine\<close>; the model
  threads them as a pair. The local \<open>totalHeight\<close> of \<open>wrapText\<close> is written but never read or
  returned, so it is left out.
\<close>

type_synonym wrapState = "string list \<times> string"

definition pushLine :: "wrapState \<Rightarrow> wrapState" where
  "pushLine st = (case st of (allLines, currentLine) \<Rightarrow>
     (if length currentLine > 0 \<or> length allLines = 0 \<or> last allLines \<noteq> []
      then (allLines @ [currentLine], [])
      else (allLines, [])))"

text \<open>The \<open>for (const ch of word)\<close> loop of \<open>splitLongWord\<close>, on \<open>allLines\<close> and \<open>chunk\<close>.\<close>

fun splitChars :: "(string \<Rightarrow> real) \<Rightarrow> real \<Rightarrow> string \<Rightarrow> string list \<times> string \<Rightarrow> string list \<times> string" where
  "splitChars m maxWidth [] (allLines, chunk) = (allLines, chunk)"
| "splitChars m maxWidth (ch # rest) (allLines, chunk) =
     (let nxt = chunk @ [ch] in
      if m nxt > maxWidth then
        (if length chunk = 0
         then splitChars m maxWidth rest (allLines @ [[ch]], chunk)
         else splitChars m maxWidth rest (allLines @ [chunk], [ch]))
      else splitChars m maxWidth rest (allLines, nxt))"

definition splitLongWord :: "(string \<Rightarrow> real) \<Rightarrow> real \<Rightarrow> string \<Rightarrow> wrapState \<Rightarrow> wrapState" where
  "splitLongWord m maxWidth word st = (case st of (allLines0, currentLine) \<Rightarrow>
     (case splitChars m maxWidth word (allLines0, []) of (allLines, chunk) \<Rightarrow>
       (if chunk \<noteq> [] then
          (if currentLine \<noteq> [] then
             (let candidate = currentLine @ (if currentLine \<noteq> [] then '' '' else []) @ chunk in
              if m candidate \<le> maxWidth then (allLines, candidate)
              else (fst (pushLine (allLines, currentLine)), chunk))
           else (allLines, chunk))
        else (allLines, currentLine))))"

text \<open>One iteration of \<open>for (const word of words)\<close>.\<close>

definition wordStep :: "(string \<Rightarrow> real) \<Rightarrow> real \<Rightarrow> wrapState \<Rightarrow> string \<Rightarrow> wrapState" where
  "wordStep m maxWidth st word = (case st of (allLines, currentLine) \<Rightarrow>
     (let tentative = currentLine @ (if currentLine \<noteq> [] then '' '' else []) @ word in
      if m tentative \<le> maxWidth then (allLines, tentative)
      else
        (let st1 = (if currentLine \<noteq> [] then pushLine (allLines, currentLine)
                    else (allLines, currentLine)) in
         if m word \<le> maxWidth then (fst st1, word)
         else splitLongWord m maxWidth word st1)))"

text \<open>The body of \<open>paragraphs.forEach((paragraph, idx) => ...)\<close>, on \<open>allLines\<close>.\<close>

definition wrapParagraph :: "(string \<Rightarrow> real) \<Rightarrow> real \<Rightarrow> string list \<Rightarrow> nat \<times> string \<Rightarrow> string list" where
  "wrapParagraph m maxWidth allLines0 ip = (case ip of (idx, paragraph) \<Rightarrow>
     (let allLines = (if idx > 0 then allLines0 @ [PARA_BREAK] else allLines0) in
      if trim paragraph = [] then allLines @ [[]]
      else
        (let words = split_str CHR '' '' paragraph;
             st = foldl (wordStep m maxWidth) (allLines, []) words
         in if snd st \<noteq> [] then fst (pushLine st) else fst st)))"

definition wrapText :: "measureText \<Rightarrow> string \<Rightarrow> real \<Rightarrow> real \<Rightarrow> string \<Rightarrow> wrapResult" where
  "wrapText mt text maxWidth fontSize fontFamily =
     (let paragraphs = split_str CHR 0x0A text;
          allLines = foldl (wrapParagraph (mt (fontSize, fontFamily)) maxWidth) []
                       (enumerate 0 paragraphs)
      in \<lparr> lines = allLines, paragraphCount = length paragraphs \<rparr>)"

text \<open>A monospaced font whose every glyph advances by 0.6 em, as an instance of the canvas
  service for concrete evaluations.\<close>

definition monoMeasure :: measureText where
  "monoMeasure f s = 0.6 * fst f * real (length s)"

section \<open>measureWrapped\<close>

text \<open>One iteration of the word loop of \<open>measureWrapped\<close>, on \<open>totalHeight\<close> and \<open>current\<close>.\<close>

definition measureWord :: "(string \<Rightarrow> real) \<Rightarrow> real \<Rightarrow> real \<Rightarrow> real \<times> string \<Rightarrow> string \<Rightarrow> real \<times> string" where
  "measureWord m maxWidth lineHeight st word = (case st of (totalHeight, current) \<Rightarrow>
     (let tentative = current @ (if current \<noteq> [] then '' '' else []) @ word in
      if m tentative \<le> maxWidth then (totalHeight, tentative)
      else (totalHeight + lineHeight, word)))"

definition measureParagraph :: "(string \<Rightarrow> real) \<Rightarrow> real \<Rightarrow> real \<Rightarrow> real \<Rightarrow> nat \<times> string \<Rightarrow> real" where
  "measureParagraph m maxWidth lineHeight totalHeight0 ip = (case ip of (idx, p) \<Rightarrow>
     (let totalHeight = (if idx > 0 then totalHeight0 + lineHeight * 0.5 else totalHeight0) in
      if trim p = [] then totalHeight + lineHeight
      else
        (let words = split_str CHR '' '' p;
             st = foldl (measureWord m maxWidth lineHeight) (totalHeight, []) words
         in if snd st \<noteq> [] then fst st + lineHeight else fst st)))"

text \<open>The source returns the object \<open>{ totalHeight }\<close>; the model returns the number.\<close>

definition measureWrapped :: "measureText \<Rightarrow> string \<Rightarrow> real \<Rightarrow> real \<Rightarrow> string \<Rightarrow> real" where
  "measureWrapped mt text maxWidth fontSize fontFamily =
     (let paragraphs = split_str CHR 0x0A text;
          lineHeight = fontSize * 1.6
      in foldl (measureParagraph (mt (fontSize, fontFamily)) maxWidth lineHeight) 0
           (enumerate 0 paragraphs))"

section \<open>drawText\<close>

text \<open>
  The effect of \<open>drawText\<close> on the canvas is the sequence of its \<open>fillText\<close> calls (text,
  x, y); the model returns it together with the final value of the cursor \<open>currentY\<close>. The
  counter \<open>currentParagraphIndex\<close> is written but never read, so it is left out. Of
  \<open>ctx.textAlign\<close> the source distinguishes \<open>"center"\<close> from everything else.
\<close>

datatype textAlign = AlignLeft | AlignCenter

type_synonym fillTextCall = "string \<times> real \<times> real"

definition drawLine :: "real \<Rightarrow> real \<Rightarrow> real \<Rightarrow> textAlign \<Rightarrow> real \<times> fillTextCall list \<Rightarrow> string \<Rightarrow> real \<times> fillTextCall list" where
  "drawLine lineHeight x maxWidth align st line = (case st of (currentY, calls) \<Rightarrow>
     (if line = PARA_BREAK then (currentY + lineHeight * 0.5, calls)
      else (currentY + lineHeight,
            calls @ [(line, (if align = AlignCenter then x + maxWidth / 2 else x), currentY)])))"

definition drawText :: "measureText \<Rightarrow> string \<Rightarrow> real \<Rightarrow> real \<Rightarrow> real \<Rightarrow> real \<Rightarrow> string \<Rightarrow> textAlign \<Rightarrow> real \<times> fillTextCall list" where
  "drawText mt text x y maxWidth fontSize fontFamily align =
     (let lineHeight = fontSize * 1.6;
          wrapped = wrapText mt text maxWidth fontSize fontFamily
      in foldl (drawLine lineHeight x maxWidth align) (y, []) (lines wrapped))"

section \<open>normalizeFontFamily\<close>

text \<open>
  \<open>s.replace(/re/g, rep)\<close> scans the subject from the left; where the pattern matches it
  emits the replacement and continues behind the match, elsewhere it copies one character.
  A pattern is given by its matcher: the length of its match at the start of the rest of
  the subject, if it matches there. After an empty match the scan advances by one character.
  None of the replacement strings of the source contains \<open>$\<close>.
\<close>

type_synonym matcher = "string \<Rightarrow> nat option"

fun replace_g :: "matcher \<Rightarrow> string \<Rightarrow> string \<Rightarrow> string" where
  "replace_g mtch rep [] = (case mtch [] of None \<Rightarrow> [] | Some n \<Rightarrow> rep)"
| "replace_g mtch rep (c # cs) =
     (case mtch (c # cs) of
        None \<Rightarrow> c # replace_g mtch rep cs
      | Some n \<Rightarrow>
          (if n = 0 then rep @ c # replace_g mtch rep cs
           else rep @ replace_g mtch rep (drop n (c # cs))))"

text \<open>A pattern without operators, such as \<open>/var\(--font-fira-code\)/\<close>.\<close>

definition lit_match :: "string \<Rightarrow> matcher" where
  "lit_match tok s = (if prefix tok s then Some (length tok) else None)"

text \<open>\<open>/var\([^)]*\)\s*,?/\<close>: the class \<open>[^)]*\<close> runs up to the next closing parenthesis,
  which must exist; white space and one comma behind it are taken when present.\<close>

definition var_match :: matcher where
  "var_match s =
     (if prefix ''var('' s then
        (let r = drop 4 s;
             inner = takeWhile (\<lambda>c. c \<noteq> CHR '')'') r
         in case dropWhile (\<lambda>c. c \<noteq> CHR '')'') r of
              [] \<Rightarrow> None
            | _ # r2 \<Rightarrow>
                (let ws = takeWhile is_js_space r2;
                     comma = (case dropWhile is_js_space r2 of
                                [] \<Rightarrow> 0
                              | c # _ \<Rightarrow> (if c = CHR '','' then 1 else 0))
                 in Some (4 + length inner + 1 + length ws + comma)))
      else None)"

text \<open>\<open>/\s*,\s*,+/\<close>: white space, a comma, white space, and at least one more comma.\<close>

definition collapse_match :: matcher where
  "collapse_match s =
     (let ws1 = takeWhile is_js_space s in
      case dropWhile is_js_space s of
        [] \<Rightarrow> None
      | c # r2 \<Rightarrow>
          (if c \<noteq> CHR '','' then None
           else
             (let ws2 = takeWhile is_js_space r2;
                  commas = takeWhile (\<lambda>c. c = CHR '','') (dropWhile is_js_space r2)
              in if commas = [] then None
                 else Some (length ws1 + 1 + length ws2 + length commas))))"

text \<open>\<open>/monospace|serif|sans-serif/.test(s)\<close>.\<close>

definition has_generic :: "string \<Rightarrow> bool" where
  "has_generic s = (sublist ''monospace'' s \<or> sublist ''serif'' s \<or> sublist ''sans-serif'' s)"

definition tok_jetbrains :: string where
  "tok_jetbrains = ''var(--font-jetbrains-mono)''"

definition tok_fira :: string where
  "tok_fira = ''var(--font-fira-code)''"

definition tok_source :: string where
  "tok_source = ''var(--font-source-code-pro)''"

definition name_jetbrains :: string where
  "name_jetbrains = [CHR 0x22] @ ''JetBrains Mono'' @ [CHR 0x22]"

definition name_fira :: string where
  "name_fira = [CHR 0x22] @ ''Fira Code'' @ [CHR 0x22]"

definition name_source :: string where
  "name_source = [CHR 0x22] @ ''Source Code Pro'' @ [CHR 0x22]"

text \<open>The three substitutions of known tokens, in the order of the source.\<close>

definition substituteKnown :: "string \<Rightarrow> string" where
  "substituteKnown fontFamily =
     replace_g (lit_match tok_source) name_source
       (replace_g (lit_match tok_fira) name_fira
         (replace_g (lit_match tok_jetbrains) name_jetbrains fontFamily))"

definition normalizeFontFamily :: "string \<Rightarrow> string" where
  "normalizeFontFamily fontFamily =
     (let n3 = substituteKnown fontFamily;
          n4 = replace_g var_match [] n3;
          n5 = trim (replace_g collapse_match '', '' n4)
      in if \<not> has_generic n5 then n5 @ '', monospace'' else n5)"

section \<open>generateImage\<close>

datatype imageFormat = Png | Jpeg | Webp

record ImageOptions =
  format :: imageFormat
  quality :: real
  width :: real
  height :: real
  scale :: real
  backgroundColor :: string
  textColor :: string
  fontFamily :: string
  fontSize :: real
  padding :: real
  borderRadius :: real
  autoFit :: bool
  cardColor :: string

definition defaultImageOptions :: ImageOptions where
  "defaultImageOptions =
     \<lparr> format = Png, quality = 1.0, width = 1080, height = 1080, scale = 3,
       backgroundColor = ''#F3EBDD'', textColor = ''#2A2926'',
       fontFamily = [CHR 0x22] @ ''SF Mono'' @ [CHR 0x22] @ '', '' @
                    [CHR 0x22] @ ''Monaco'' @ [CHR 0x22] @ '', '' @
                    [CHR 0x22] @ ''Inconsolata'' @ [CHR 0x22] @ '', '' @
                    [CHR 0x22] @ ''Roboto Mono'' @ [CHR 0x22] @ '', '' @
                    [CHR 0x22] @ ''Courier New'' @ [CHR 0x22] @ '', monospace'',
       fontSize = 16, padding = 40, borderRadius = 20, autoFit = True,
       cardColor = ''#EFE3CF'' \<rparr>"

text \<open>
  The two loops of the auto-fit search. \<open>widthAt s\<close> is the measured width of the sample line
  after \<open>ctx.font\<close> was set to the size \<open>s\<close>.
\<close>

function shrinkFont :: "(real \<Rightarrow> real) \<Rightarrow> real \<Rightarrow> real \<Rightarrow> real" where
  "shrinkFont widthAt targetWidth workingFontSize =
     (if workingFontSize > 10 \<and> widthAt workingFontSize > targetWidth
      then shrinkFont widthAt targetWidth (workingFontSize - 1)
      else workingFontSize)"
  by pat_completeness auto
termination
proof (relation "measure (\<lambda>(widthAt, targetWidth, s). nat \<lceil>s - 10\<rceil>)")
  show "wf (measure (\<lambda>(widthAt, targetWidth, s). nat \<lceil>s - 10\<rceil>))"
    by simp
next
  fix widthAt :: "real \<Rightarrow> real" and targetWidth workingFontSize :: real
  assume "workingFontSize > 10 \<and> widthAt workingFontSize > targetWidth"
  then have "\<lceil>workingFontSize - 1 - 10\<rceil> < \<lceil>workingFontSize - 10\<rceil>" "0 < \<lceil>workingFontSize - 10\<rceil>"
    by linarith+
  then show "((widthAt, targetWidth, workingFontSize - 1), (widthAt, targetWidth, workingFontSize))
        \<in> measure (\<lambda>(widthAt, targetWidth, s). nat \<lceil>s - 10\<rceil>)"
    by simp
qed

function growFont :: "(real \<Rightarrow> real) \<Rightarrow> real \<Rightarrow> real \<Rightarrow> real \<Rightarrow> real" where
  "growFont widthAt targetWidth requested workingFontSize =
     (if widthAt workingFontSize < targetWidth * 0.9 then
        (if widthAt (workingFontSize + 1) > targetWidth then (workingFontSize + 1) - 1
         else if workingFontSize + 1 > requested * 3 then workingFontSize + 1
         else growFont widthAt targetWidth requested (workingFontSize + 1))
      else workingFontSize)"
  by pat_completeness auto
termination
proof (relation "measure (\<lambda>(widthAt, targetWidth, requested, s). nat \<lceil>requested * 3 - s\<rceil>)")
  show "wf (measure (\<lambda>(widthAt, targetWidth, requested, s). nat \<lceil>requested * 3 - s\<rceil>))"
    by simp
next
  fix widthAt :: "real \<Rightarrow> real" and targetWidth requested workingFontSize :: real
  assume "\<not> requested * 3 < workingFontSize + 1"
  then have "\<lceil>requested * 3 - (workingFontSize + 1)\<rceil> < \<lceil>requested * 3 - workingFontSize\<rceil>"
    "0 < \<lceil>requested * 3 - workingFontSize\<rceil>"
    by linarith+
  then show "((widthAt, targetWidth, requested, workingFontSize + 1),
         (widthAt, targetWidth, requested, workingFontSize))
        \<in> measure (\<lambda>(widthAt, targetWidth, requested, s). nat \<lceil>requested * 3 - s\<rceil>)"
    by simp
qed

declare shrinkFont.simps [simp del] growFont.simps [simp del]

text \<open>\<open>text.split("\n").reduce((a, b) => (b.length > a.length ? b : a), "")\<close>.\<close>

definition sampleLineOf :: "string \<Rightarrow> string" where
  "sampleLineOf text =
     foldl (\<lambda>a b. if length b > length a then b else a) [] (split_str CHR 0x0A text)"

definition autoFitSize :: "measureText \<Rightarrow> string \<Rightarrow> string \<Rightarrow> real \<Rightarrow> real \<Rightarrow> real" where
  "autoFitSize mt text normalizedFontFamily targetWidth requested =
     (let sampleLine = sampleLineOf text;
          widthAt = (\<lambda>s. mt (s, normalizedFontFamily) sampleLine)
      in growFont widthAt targetWidth requested (shrinkFont widthAt targetWidth requested))"

text \<open>
  What \<open>generateImage\<close> computes and does: the font size it settles on, the wrap result, the
  heights, the size given to the canvas, the position where drawing starts, and the
  \<open>fillText\<close> calls with the final cursor. The fills of background, card and dots and the
  encoding of the data URL do not depend on the text and are not modelled. \<open>opts\<close> is the
  record after the caller's overrides were merged onto \<open>defaultImageOptions\<close>.
\<close>

record renderResult =
  workingFontSize :: real
  wrapped :: wrapResult
  textHeight :: real
  dynamicHeight :: real
  canvasWidth :: real
  canvasHeight :: real
  totalTextHeight :: real
  drawStartY :: real
  drawEndY :: real
  fillTexts :: "fillTextCall list"

definition generateImage :: "measureText \<Rightarrow> string \<Rightarrow> ImageOptions \<Rightarrow> renderResult" where
  "generateImage mt text opts =
     (let normalizedFontFamily = normalizeFontFamily (fontFamily opts);
          targetWidth = width opts - 96 - padding opts * 2;
          workingFontSize =
            (if autoFit opts
             then autoFitSize mt text normalizedFontFamily targetWidth (fontSize opts)
             else fontSize opts);
          lineHeight = workingFontSize * 1.6;
          cardX = 48;
          cardY = 48;
          cardWidth = width opts - 96;
          maxTextWidth = cardWidth - padding opts * 2;
          wrapped = wrapText mt text maxTextWidth workingFontSize normalizedFontFamily;
          paragraphSeparatorExtra =
            max 0 (real (paragraphCount wrapped) - 1) * lineHeight * 0.5;
          textHeight = real (length (lines wrapped)) * lineHeight + paragraphSeparatorExtra;
          dynamicHeight = max (height opts) (textHeight + padding opts * 2 + 160);
          cardHeight = dynamicHeight - 96;
          totalTextHeight =
            measureWrapped mt text (cardWidth - padding opts * 2) workingFontSize
              normalizedFontFamily;
          startY = cardY + (cardHeight - totalTextHeight) / 2;
          drawn = drawText mt text (cardX + padding opts) (max (cardY + 80) startY)
                    (cardWidth - padding opts * 2) workingFontSize normalizedFontFamily
                    AlignCenter
      in \<lparr> workingFontSize = workingFontSize, wrapped = wrapped, textHeight = textHeight,
           dynamicHeight = dynamicHeight,
           canvasWidth = width opts * scale opts,
           canvasHeight = dynamicHeight * scale opts,
           totalTextHeight = totalTextHeight,
           drawStartY = max (cardY + 80) startY,
           drawEndY = fst drawn,
           fillTexts = snd drawn \<rparr>)"

section \<open>The history endpoint\<close>

text \<open>
  The route handler \<open>POST\<close> of the history API. The repository holds it twice: the handler
  that validates its payload, modelled as \<open>POST\<close>, and the handler of
  \<open>src/app/api/history/route.ts\<close>, which stores the body as it comes, modelled as \<open>POST_route\<close>.
  \<open>request.json()\<close> yields a JSON value or throws; the file \<open>data/history.json\<close> holds the
  object \<open>{ snaps: [...] }\<close> or does not exist. A JSON number is finite or, by overflow of a
  literal such as \<open>1e999\<close>, an infinity.
\<close>

datatype jsnumber = Finite real | PosInfinity | NegInfinity

datatype json =
  JNull
| JBool bool
| JNumber jsnumber
| JString string
| JArray "json list"
| JObject "(string \<times> json) list"











record response =
  status :: nat
  ok :: bool
  error :: "string option"

type_synonym historyFile = "json list option"

definition ensureFile :: "historyFile \<Rightarrow> historyFile" where
  "ensureFile file = (case file of None \<Rightarrow> Some [] | Some snaps \<Rightarrow> Some snaps)"

definition snapsOf :: "historyFile \<Rightarrow> json list" where
  "snapsOf file = (case file of None \<Rightarrow> [] | Some snaps \<Rightarrow> snaps)"















section \<open>Separated font stacks\<close>

text \<open>A font stack read as a list of pieces: plain text, and closed tokens \<open>var(inner)\<close>
  together with the separator that the strip pattern of \<open>normalizeFontFamily\<close> takes with
  them (white space and at most one comma). \<open>render\<close> gives the font-family string of a list
  of pieces.\<close>

datatype piece = Plain string | Var string string

fun render :: "piece list \<Rightarrow> string" where
  "render [] = []"
| "render (Plain t # ps) = t @ render ps"
| "render (Var inner sep # ps) = ''var('' @ inner @ '')'' @ sep @ render ps"

text \<open>The characters that occur in none of \<open>var(\<close>, \<open>monospace\<close> and \<open>serif\<close>. Text that ends
  in such a character, for instance a comma, a blank or a quote, forms no new token and no
  new generic family with the text behind a removed token.\<close>

definition joinSafe :: "char \<Rightarrow> bool" where
  "joinSafe c = (c \<notin> set ''var(monospaceserif'')"

text \<open>The separator of a token is what the strip pattern takes behind the closing
  parenthesis: white space and a comma, or white space alone when the text behind it begins
  with neither white space nor a comma.\<close>

definition startsSep :: "string \<Rightarrow> bool" where
  "startsSep r = (case r of [] \<Rightarrow> False | h # _ \<Rightarrow> is_js_space h \<or> h = CHR '','')"

definition sepOk :: "string \<Rightarrow> string \<Rightarrow> bool" where
  "sepOk sep r =
     (let rest = dropWhile is_js_space sep
      in (rest = [] \<and> \<not> startsSep r) \<or> rest = '','')"

text \<open>A separated font stack: no \<open>var(\<close> inside plain text or inside a token, no closing
  parenthesis inside a token, every separator as the strip pattern takes it, and every
  non-empty piece of plain text that is not the last piece ends in a join-safe character.\<close>

fun separated :: "piece list \<Rightarrow> bool" where
  "separated [] = True"
| "separated (Plain t # ps) =
     (\<not> sublist ''var('' t \<and> (t = [] \<or> ps = [] \<or> joinSafe (last t)) \<and> separated ps)"
| "separated (Var inner sep # ps) =
     (CHR '')'' \<notin> set inner \<and> \<not> sublist ''var('' inner \<and> sepOk sep (render ps) \<and> separated ps)"

text \<open>The plain text of a font stack, the tokens and their separators left out.\<close>

fun texts :: "piece list \<Rightarrow> string" where
  "texts [] = []"
| "texts (Plain t # ps) = t @ texts ps"
| "texts (Var inner sep # ps) = texts ps"

text \<open>The substitution of a known token, piece by piece: a token with the given inner text
  becomes plain text, the family name followed by the separator of the token.\<close>

fun subst1 :: "string \<Rightarrow> string \<Rightarrow> piece \<Rightarrow> piece" where
  "subst1 i0 name (Plain t) = Plain t"
| "subst1 i0 name (Var inner sep) = (if inner = i0 then Plain (name @ sep) else Var inner sep)"

definition knownPieces :: "piece list \<Rightarrow> piece list" where
  "knownPieces ps =
     map (subst1 ''--font-source-code-pro'' name_source)
       (map (subst1 ''--font-fira-code'' name_fira)
         (map (subst1 ''--font-jetbrains-mono'' name_jetbrains) ps))"

text \<open>A font stack for a concrete evaluation: the three known tokens, a token that
  \<open>normalizeFontFamily\<close> does not know and a family name, with no generic family.\<close>

definition fontPieces :: "piece list" where
  "fontPieces =
     [Var ''--font-jetbrains-mono'' '','', Plain '' '',
      Var ''--font-fira-code'' '','', Plain '' '',
      Var ''--font-source-code-pro'' '','', Plain '' '',
      Var ''--font-space-mono'' '','', Plain '' Arial'']"

text \<open>A second one: a known token, a token that is not known, and a generic family.\<close>

definition fontPiecesGeneric :: "piece list" where
  "fontPiecesGeneric =
     [Var ''--font-fira-code'' '','', Plain '' '',
      Var ''--font-space-mono'' '','', Plain '' monospace'']"

section \<open>Predicates used in the statements\<close>

text \<open>A literal line is acceptable when it fits, or when it is a single character that alone
  is wider than the limit.\<close>

definition line_ok :: "(string \<Rightarrow> real) \<Rightarrow> real \<Rightarrow> string \<Rightarrow> bool" where
  "line_ok m maxWidth l = (m l \<le> maxWidth \<or> (length l = 1 \<and> maxWidth < m l))"

definition entry_ok :: "(string \<Rightarrow> real) \<Rightarrow> real \<Rightarrow> string \<Rightarrow> bool" where
  "entry_ok m maxWidth l = (l = PARA_BREAK \<or> l = [] \<or> line_ok m maxWidth l)"

definition state_ok :: "(string \<Rightarrow> real) \<Rightarrow> real \<Rightarrow> wrapState \<Rightarrow> bool" where
  "state_ok m w st = (list_all (entry_ok m w) (fst st) \<and> (snd st = [] \<or> line_ok m w (snd st)))"

text \<open>Reading a wrap result back: the entries between two markers form one paragraph, so
  a list of entries with \<open>k\<close> markers reads as \<open>k + 1\<close> paragraphs.\<close>

definition paragraphsRead :: "string list \<Rightarrow> nat" where
  "paragraphsRead ls = Suc (length (filter (\<lambda>l. l = PARA_BREAK) ls))"

text \<open>The vertical space the drawn entries take: a full line height for every entry that is
  not a marker, half a line height for every marker.\<close>

definition drawnHeight :: "real \<Rightarrow> string list \<Rightarrow> real" where
  "drawnHeight lineHeight ls =
     real (length (filter (\<lambda>l. l \<noteq> PARA_BREAK) ls)) * lineHeight +
     real (length (filter (\<lambda>l. l = PARA_BREAK) ls)) * (lineHeight * 0.5)"

section \<open>Wrapped lines fit the width\<close>

lemma line_ok_single: "line_ok m maxWidth [ch]"
  by (auto simp: line_ok_def)

lemma entry_ok_single: "entry_ok m maxWidth [ch]"
  by (simp add: entry_ok_def line_ok_single)

lemma entry_ok_line: "line_ok m maxWidth l \<Longrightarrow> entry_ok m maxWidth l"
  by (simp add: entry_ok_def)

lemma entry_ok_blank: "entry_ok m maxWidth []"
  by (simp add: entry_ok_def)

lemma entry_ok_break: "entry_ok m maxWidth PARA_BREAK"
  by (simp add: entry_ok_def)

lemma splitChars_ok:
  "list_all (entry_ok m w) al \<Longrightarrow> chunk = [] \<or> line_ok m w chunk \<Longrightarrow>
   splitChars m w word (al, chunk) = (al', chunk') \<Longrightarrow>
   list_all (entry_ok m w) al' \<and> (chunk' = [] \<or> line_ok m w chunk')"
proof (induction word arbitrary: al chunk)
  case Nil
  then show ?case by simp
next
  case (Cons ch rest)
  show ?case
  proof (cases "w < m (chunk @ [ch])")
    case over: True
    show ?thesis
    proof (cases "chunk = []")
      case True
      with over Cons.prems have "splitChars m w rest (al @ [[ch]], chunk) = (al', chunk')"
        by simp
      moreover have "list_all (entry_ok m w) (al @ [[ch]])"
        using Cons.prems(1) by (simp add: entry_ok_single)
      ultimately show ?thesis using Cons.IH Cons.prems(2) by blast
    next
      case False
      with over Cons.prems have "splitChars m w rest (al @ [chunk], [ch]) = (al', chunk')"
        by simp
      moreover have "list_all (entry_ok m w) (al @ [chunk])"
        using Cons.prems(1,2) False by (simp add: entry_ok_line)
      ultimately show ?thesis using Cons.IH line_ok_single by blast
    qed
  next
    case False
    with Cons.prems have "splitChars m w rest (al, chunk @ [ch]) = (al', chunk')"
      by simp
    moreover have "line_ok m w (chunk @ [ch])"
      using False by (simp add: line_ok_def)
    ultimately show ?thesis using Cons.IH Cons.prems(1) by blast
  qed
qed

lemma pushLine_ok: "state_ok m w st \<Longrightarrow> state_ok m w (pushLine st)"
  by (cases st) (auto simp: state_ok_def pushLine_def entry_ok_line entry_ok_blank)

lemma splitLongWord_ok:
  assumes "state_ok m w st"
  shows "state_ok m w (splitLongWord m w word st)"
proof -
  obtain al cl where st: "st = (al, cl)" by (cases st)
  obtain al' chunk where sc: "splitChars m w word (al, []) = (al', chunk)"
    by (cases "splitChars m w word (al, [])")
  from assms st have "list_all (entry_ok m w) al" by (simp add: state_ok_def)
  with sc have ok: "list_all (entry_ok m w) al'" "chunk = [] \<or> line_ok m w chunk"
    using splitChars_ok [of m w al "[]" word al' chunk] by auto
  from assms st have cl: "cl = [] \<or> line_ok m w cl" by (simp add: state_ok_def)
  have push: "state_ok m w (pushLine (al', cl))"
    using ok(1) cl by (intro pushLine_ok) (simp add: state_ok_def)
  show ?thesis
    using ok cl push
    by (auto simp: splitLongWord_def st sc state_ok_def Let_def line_ok_def)
qed

lemma wordStep_ok:
  assumes "state_ok m w st"
  shows "state_ok m w (wordStep m w st word)"
proof -
  obtain al cl where st: "st = (al, cl)" by (cases st)
  have push: "state_ok m w (pushLine (al, cl))"
    using assms st by (simp add: pushLine_ok)
  have keep: "state_ok m w (if cl \<noteq> [] then pushLine (al, cl) else (al, cl))"
    using assms st push by auto
  show ?thesis
    using assms keep splitLongWord_ok [OF keep, of word]
    by (auto simp: wordStep_def st Let_def state_ok_def line_ok_def)
qed

lemma foldl_wordStep_ok:
  "state_ok m w st \<Longrightarrow> state_ok m w (foldl (wordStep m w) st ws)"
  by (induction ws arbitrary: st) (simp_all add: wordStep_ok)

lemma wrapParagraph_ok:
  assumes "list_all (entry_ok m w) al"
  shows "list_all (entry_ok m w) (wrapParagraph m w al ip)"
proof -
  obtain idx p where ip: "ip = (idx, p)" by (cases ip)
  define al1 where "al1 = (if idx > 0 then al @ [PARA_BREAK] else al)"
  have al1: "list_all (entry_ok m w) al1"
    using assms by (simp add: al1_def entry_ok_break)
  have "state_ok m w (al1, [])" using al1 by (simp add: state_ok_def)
  then have f: "state_ok m w (foldl (wordStep m w) (al1, []) (split_str CHR '' '' p))"
    by (rule foldl_wordStep_ok)
  then have "state_ok m w (pushLine (foldl (wordStep m w) (al1, []) (split_str CHR '' '' p)))"
    by (rule pushLine_ok)
  with f al1 show ?thesis
    by (simp add: wrapParagraph_def ip al1_def [symmetric] Let_def state_ok_def entry_ok_blank)
qed

lemma foldl_wrapParagraph_ok:
  "list_all (entry_ok m w) al \<Longrightarrow> list_all (entry_ok m w) (foldl (wrapParagraph m w) al ips)"
  by (induction ips arbitrary: al) (simp_all add: wrapParagraph_ok)

text \<open>
  C1 (wrap width bound). Every entry of the result of \<open>wrapText\<close> that is neither the
  paragraph-break marker nor a blank-line entry has a measured width of at most \<open>maxWidth\<close>,
  unless it consists of a single character whose own measured width exceeds \<open>maxWidth\<close>.
  This holds for every text, width, font size and font family, and for every measuring
  function of the canvas.
\<close>

theorem wrapText_width_bound:
  "\<forall>l \<in> set (lines (wrapText mt text maxWidth fs ff)).
     l \<noteq> PARA_BREAK \<longrightarrow> l \<noteq> [] \<longrightarrow>
       mt (fs, ff) l \<le> maxWidth \<or>
       (length l = 1 \<and> maxWidth < mt (fs, ff) l)"
proof -
  have "list_all (entry_ok (mt (fs, ff)) maxWidth)
          (lines (wrapText mt text maxWidth fs ff))"
    by (simp add: wrapText_def Let_def foldl_wrapParagraph_ok)
  then show ?thesis
    by (auto simp: list_all_iff entry_ok_def line_ok_def)
qed

section \<open>Evaluation on concrete inputs\<close>

lemmas wrap_defs = wrapText_def wrapParagraph_def wordStep_def splitLongWord_def pushLine_def
  trim_def is_js_space_def enumerate_eq_zip Let_def

lemmas measure_defs = measureWrapped_def measureParagraph_def measureWord_def
  trim_def is_js_space_def enumerate_eq_zip Let_def

lemma monoMeasure_apply: "monoMeasure (s, ff) t = 0.6 * s * real (length t)"
  by (simp add: monoMeasure_def)

theorem wrapText_width_bound_witness:
  "''cdef'' \<in> set (lines (wrapText monoMeasure ''ab cdefghij'' 24 10 ''monospace'')) \<and>
   ''cdef'' \<noteq> PARA_BREAK \<and> ''cdef'' \<noteq> [] \<and>
   (monoMeasure (10, ''monospace'') ''cdef'' \<le> 24 \<or>
    (length ''cdef'' = 1 \<and> 24 < monoMeasure (10, ''monospace'') ''cdef''))"
proof -
  have mem: "''cdef'' \<in> set (lines (wrapText monoMeasure ''ab cdefghij'' 24 10 ''monospace''))"
    by (simp add: wrap_defs monoMeasure_apply PARA_BREAK_def)
  have ne: "''cdef'' \<noteq> PARA_BREAK" "''cdef'' \<noteq> []"
    by (simp_all add: PARA_BREAK_def)
  from wrapText_width_bound [of monoMeasure "''ab cdefghij''" 24 10 "''monospace''"] mem
  have "''cdef'' \<noteq> PARA_BREAK \<longrightarrow> ''cdef'' \<noteq> [] \<longrightarrow>
     monoMeasure (10, ''monospace'') ''cdef'' \<le> 24 \<or>
     (length ''cdef'' = 1 \<and> 24 < monoMeasure (10, ''monospace'') ''cdef'')"
    by (rule bspec)
  with ne mem show ?thesis by blast
qed

section \<open>The parts of the result of generateImage\<close>

lemma gi_workingFontSize:
  "workingFontSize (generateImage mt text opts) =
     (if autoFit opts
      then autoFitSize mt text (normalizeFontFamily (fontFamily opts))
             (width opts - 96 - padding opts * 2) (fontSize opts)
      else fontSize opts)"
  unfolding generateImage_def Let_def by (simp only: renderResult.select_convs)

lemma gi_wrapped:
  "wrapped (generateImage mt text opts) =
     wrapText mt text (width opts - 96 - padding opts * 2)
       (workingFontSize (generateImage mt text opts)) (normalizeFontFamily (fontFamily opts))"
  unfolding generateImage_def Let_def by (simp only: renderResult.select_convs)

lemma gi_textHeight:
  "textHeight (generateImage mt text opts) =
     real (length (lines (wrapped (generateImage mt text opts)))) *
       (workingFontSize (generateImage mt text opts) * 1.6) +
     max 0 (real (paragraphCount (wrapped (generateImage mt text opts))) - 1) *
       (workingFontSize (generateImage mt text opts) * 1.6) * 0.5"
  unfolding generateImage_def Let_def by (simp only: renderResult.select_convs)

lemma gi_dynamicHeight:
  "dynamicHeight (generateImage mt text opts) =
     max (height opts) (textHeight (generateImage mt text opts) + padding opts * 2 + 160)"
  unfolding generateImage_def Let_def by (simp only: renderResult.select_convs)

lemma gi_canvasWidth:
  "canvasWidth (generateImage mt text opts) = width opts * scale opts"
  unfolding generateImage_def Let_def by (simp only: renderResult.select_convs)

lemma gi_canvasHeight:
  "canvasHeight (generateImage mt text opts) = dynamicHeight (generateImage mt text opts) * scale opts"
  unfolding generateImage_def Let_def by (simp only: renderResult.select_convs)

lemma gi_totalTextHeight:
  "totalTextHeight (generateImage mt text opts) =
     measureWrapped mt text (width opts - 96 - padding opts * 2)
       (workingFontSize (generateImage mt text opts)) (normalizeFontFamily (fontFamily opts))"
  unfolding generateImage_def Let_def by (simp only: renderResult.select_convs)

lemma gi_drawStartY:
  "drawStartY (generateImage mt text opts) =
     max (48 + 80) (48 + (dynamicHeight (generateImage mt text opts) - 96
        - totalTextHeight (generateImage mt text opts)) / 2)"
  unfolding generateImage_def Let_def by (simp only: renderResult.select_convs)

lemma gi_draw:
  "(drawEndY (generateImage mt text opts), fillTexts (generateImage mt text opts)) =
     drawText mt text (48 + padding opts) (drawStartY (generateImage mt text opts))
       (width opts - 96 - padding opts * 2)
       (workingFontSize (generateImage mt text opts)) (normalizeFontFamily (fontFamily opts))
       AlignCenter"
  unfolding generateImage_def Let_def by (simp only: renderResult.select_convs prod.collapse)

section \<open>The empty text\<close>

lemma wrapText_empty: "wrapText mt [] w fs ff = \<lparr> lines = [[]], paragraphCount = 1 \<rparr>"
  by (simp add: wrap_defs)

lemma drawText_empty: "drawText mt [] x y w fs ff al = (y + fs * 1.6, [([], (if al = AlignCenter then x + w / 2 else x), y)])"
  by (simp add: drawText_def Let_def wrapText_empty drawLine_def PARA_BREAK_def)

lemma opts_sel:
  "width (defaultImageOptions\<lparr>width := 1080, height := 1080, autoFit := True\<rparr>) = 1080"
  "height (defaultImageOptions\<lparr>width := 1080, height := 1080, autoFit := True\<rparr>) = 1080"
  "scale (defaultImageOptions\<lparr>width := 1080, height := 1080, autoFit := True\<rparr>) = scale defaultImageOptions"
  "padding (defaultImageOptions\<lparr>width := 1080, height := 1080, autoFit := True\<rparr>) = 40"
  by (simp_all add: defaultImageOptions_def)

text \<open>
  C8 (degenerate empty input). \<open>generateImage("", {width: 1080, height: 1080, autoFit: true})\<close>
  returns for every measuring function (both auto-fit loops are total functions). The wrap
  result of the empty string is the single blank-line entry, and it is the one entry drawn;
  the canvas is 1080 times the scale wide and at least 1080 times the scale high.
\<close>

theorem generateImage_empty_text:
  "lines (wrapped (generateImage mt []
      (defaultImageOptions\<lparr>width := 1080, height := 1080, autoFit := True\<rparr>))) = [[]] \<and>
   paragraphCount (wrapped (generateImage mt []
      (defaultImageOptions\<lparr>width := 1080, height := 1080, autoFit := True\<rparr>))) = 1 \<and>
   map fst (fillTexts (generateImage mt []
      (defaultImageOptions\<lparr>width := 1080, height := 1080, autoFit := True\<rparr>))) = [[]] \<and>
   canvasWidth (generateImage mt []
      (defaultImageOptions\<lparr>width := 1080, height := 1080, autoFit := True\<rparr>))
     = 1080 * scale defaultImageOptions \<and>
   canvasHeight (generateImage mt []
      (defaultImageOptions\<lparr>width := 1080, height := 1080, autoFit := True\<rparr>))
     \<ge> 1080 * scale defaultImageOptions"
proof -
  let ?o = "defaultImageOptions\<lparr>width := 1080, height := 1080, autoFit := True\<rparr>"
  let ?r = "generateImage mt [] ?o"
  have w: "wrapped ?r = \<lparr> lines = [[]], paragraphCount = 1 \<rparr>"
    by (simp only: gi_wrapped wrapText_empty)
  have "map fst (snd (drawEndY ?r, fillTexts ?r)) = [[]]"
    by (simp add: gi_draw drawText_empty)
  then have f: "map fst (fillTexts ?r) = [[]]" by simp
  have h: "dynamicHeight ?r \<ge> 1080"
    by (simp add: gi_dynamicHeight opts_sel)
  have sc: "scale defaultImageOptions = 3" by (simp add: defaultImageOptions_def)
  have cw: "canvasWidth ?r = 1080 * scale defaultImageOptions"
    by (simp only: gi_canvasWidth opts_sel)
  have ch: "canvasHeight ?r \<ge> 1080 * scale defaultImageOptions"
    using h by (simp add: gi_canvasHeight opts_sel sc)
  show ?thesis
    using w f cw ch by simp
qed

section \<open>The marker as user text\<close>

lemma wrapText_sentinel:
  "mt (fs, ff) PARA_BREAK \<le> maxWidth \<Longrightarrow>
   wrapText mt PARA_BREAK maxWidth fs ff = \<lparr> lines = [PARA_BREAK], paragraphCount = 1 \<rparr>"
  by (simp add: wrap_defs PARA_BREAK_def)

lemma drawnHeight_Nil: "drawnHeight lh [] = 0"
  by (simp add: drawnHeight_def)

lemma drawnHeight_Cons:
  "drawnHeight lh (l # ls) = (if l = PARA_BREAK then lh * 0.5 else lh) + drawnHeight lh ls"
  by (simp add: drawnHeight_def algebra_simps)

lemma foldl_drawLine:
  "foldl (drawLine lh x w al) (y, calls) ls =
     (y + drawnHeight lh ls, snd (foldl (drawLine lh x w al) (y, calls) ls)) \<and>
   map fst (snd (foldl (drawLine lh x w al) (y, calls) ls)) =
     map fst calls @ filter (\<lambda>l. l \<noteq> PARA_BREAK) ls"
proof (induction ls arbitrary: y calls)
  case Nil
  then show ?case by (simp add: drawnHeight_Nil)
next
  case (Cons l ls)
  show ?case
  proof (cases "l = PARA_BREAK")
    case True
    with Cons [of "y + lh * 0.5" calls] show ?thesis
      by (simp add: drawLine_def drawnHeight_Cons add.assoc)
  next
    case False
    with Cons [of "y + lh" "calls @ [(l, (if al = AlignCenter then x + w / 2 else x), y)]"]
    show ?thesis
      by (simp add: drawLine_def drawnHeight_Cons add.assoc)
  qed
qed

lemma drawText_cursor:
  "fst (drawText mt text x y w fs ff al) = y + drawnHeight (fs * 1.6) (lines (wrapText mt text w fs ff))"
  using foldl_drawLine [of "fs * 1.6" x w al y "[]" "lines (wrapText mt text w fs ff)"]
  by (simp add: drawText_def Let_def) (metis fst_conv)

lemma drawText_texts:
  "map fst (snd (drawText mt text x y w fs ff al)) =
     filter (\<lambda>l. l \<noteq> PARA_BREAK) (lines (wrapText mt text w fs ff))"
  using foldl_drawLine [of "fs * 1.6" x w al y "[]" "lines (wrapText mt text w fs ff)"]
  by (simp add: drawText_def Let_def)

text \<open>
  C9 (paragraph-break sentinel collision). \<open>drawText\<close> treats every entry of the wrap result
  that is equal to \<open>"__PARA_BREAK__"\<close> as a marker: the texts it draws are the entries that
  differ from the marker, and the cursor advances by a line height for each of those and by
  half a line height for each entry equal to the marker. When the user's text is the word
  \<open>__PARA_BREAK__\<close> and it fits the width, the wrap result is that one entry, so \<open>drawText\<close>
  makes no \<open>fillText\<close> call at all and the text is missing from the image.
\<close>

theorem drawText_sentinel_dropped:
  "mt (fs, ff) PARA_BREAK \<le> maxWidth \<Longrightarrow>
   map fst (snd (drawText mt t x y maxWidth fs ff align)) =
     filter (\<lambda>l. l \<noteq> PARA_BREAK) (lines (wrapText mt t maxWidth fs ff)) \<and>
   fst (drawText mt t x y maxWidth fs ff align) =
     y + drawnHeight (fs * 1.6) (lines (wrapText mt t maxWidth fs ff)) \<and>
   lines (wrapText mt PARA_BREAK maxWidth fs ff) = [PARA_BREAK] \<and>
   drawText mt PARA_BREAK x y maxWidth fs ff align = (y + fs * 1.6 * 0.5, [])"
  by (simp add: drawText_cursor drawText_texts)
     (simp add: drawText_def drawLine_def wrapText_sentinel Let_def)

theorem drawText_sentinel_dropped_witness:
  "monoMeasure (16, ''monospace'') PARA_BREAK \<le> 904 \<and>
   map fst (snd (drawText monoMeasure ''a'' 88 128 904 16 ''monospace'' AlignCenter)) =
     filter (\<lambda>l. l \<noteq> PARA_BREAK) (lines (wrapText monoMeasure ''a'' 904 16 ''monospace'')) \<and>
   lines (wrapText monoMeasure PARA_BREAK 904 16 ''monospace'') = [PARA_BREAK] \<and>
   drawText monoMeasure PARA_BREAK 88 128 904 16 ''monospace'' AlignCenter
     = (128 + 16 * 1.6 * 0.5, [])"
proof -
  have fits: "monoMeasure (16, ''monospace'') PARA_BREAK \<le> 904"
    by (simp add: monoMeasure_apply PARA_BREAK_def)
  from fits drawText_sentinel_dropped [where mt = monoMeasure and fs = 16
      and ff = "''monospace''" and maxWidth = 904 and x = 88 and y = 128
      and align = AlignCenter and t = "''a''"]
  show ?thesis by simp
qed

section \<open>The auto-fit search\<close>

lemma shrinkFont_le: "shrinkFont widthAt t s \<le> s"
proof (induction widthAt t s rule: shrinkFont.induct)
  case (1 widthAt t s)
  show ?case
  proof (cases "s > 10 \<and> widthAt s > t")
    case True
    with "1.IH" have "shrinkFont widthAt t (s - 1) \<le> s - 1" by simp
    with True show ?thesis by (subst shrinkFont.simps) simp
  next
    case False
    then show ?thesis by (subst shrinkFont.simps) auto
  qed
qed

lemma shrinkFont_ge: "s \<in> \<int> \<Longrightarrow> min 10 s \<le> shrinkFont widthAt t s"
proof (induction widthAt t s rule: shrinkFont.induct)
  case (1 widthAt t s)
  show ?case
  proof (cases "s > 10 \<and> widthAt s > t")
    case True
    from "1.prems" obtain k :: int where k: "s = of_int k" by (auto elim: Ints_cases)
    with True have "k \<ge> 11" by simp
    with k have big: "10 \<le> s - 1" by simp
    have "s - 1 \<in> \<int>" using "1.prems" by simp
    with "1.IH" True have "min 10 (s - 1) \<le> shrinkFont widthAt t (s - 1)" by simp
    with big have "10 \<le> shrinkFont widthAt t (s - 1)" by simp
    with True show ?thesis by (subst shrinkFont.simps) simp
  next
    case False
    then show ?thesis by (subst shrinkFont.simps) auto
  qed
qed

lemma growFont_ge: "s \<le> growFont widthAt t r s"
proof (induction widthAt t r s rule: growFont.induct)
  case (1 widthAt t r s)
  show ?case
  proof (cases "widthAt s < t * 0.9 \<and> \<not> widthAt (s + 1) > t \<and> \<not> s + 1 > r * 3")
    case True
    with "1.IH" have "s + 1 \<le> growFont widthAt t r (s + 1)" by simp
    with True show ?thesis by (subst growFont.simps) simp
  next
    case False
    then show ?thesis by (subst growFont.simps) auto
  qed
qed

lemma growFont_le: "s \<le> r * 3 \<Longrightarrow> growFont widthAt t r s \<le> r * 3 + 1"
proof (induction widthAt t r s rule: growFont.induct)
  case (1 widthAt t r s)
  show ?case
  proof (cases "widthAt s < t * 0.9 \<and> \<not> widthAt (s + 1) > t \<and> \<not> s + 1 > r * 3")
    case True
    with "1.IH" have "growFont widthAt t r (s + 1) \<le> r * 3 + 1" by simp
    with True show ?thesis by (subst growFont.simps) simp
  next
    case False
    with "1.prems" show ?thesis by (subst growFont.simps) auto
  qed
qed

lemma sampleLineOf_empty: "sampleLineOf [] = []"
  by (simp add: sampleLineOf_def)

lemma autoFit_empty_default: "autoFitSize monoMeasure [] ff 904 16 = 49"
  by (simp add: autoFitSize_def sampleLineOf_empty monoMeasure_apply shrinkFont.simps growFont.simps)

lemma autoFit_hello_small: "autoFitSize monoMeasure ''hello'' ff 24 8 = 8"
  by (simp add: autoFitSize_def sampleLineOf_def monoMeasure_apply shrinkFont.simps growFont.simps)

text \<open>
  C3 (auto-fit size bounds), as the code has it. With \<open>autoFit\<close> enabled and a requested
  font size that is a non-negative whole number, the font size that \<open>generateImage\<close> settles
  on is at least the smaller of 10 and the requested size, and at most three times the
  requested size plus one: the growing loop tests its guard \<open>workingFontSize > fontSize * 3\<close>
  after the increment and leaves without stepping back, and the shrinking loop never raises
  a size that starts below 10.
\<close>

theorem autoFit_bounds:
  assumes "autoFit opts" and "fontSize opts \<in> \<int>" and "0 \<le> fontSize opts"
  shows "min 10 (fontSize opts) \<le> workingFontSize (generateImage mt text opts) \<and>
         workingFontSize (generateImage mt text opts) \<le> 3 * fontSize opts + 1"
proof -
  let ?wa = "\<lambda>s. mt (s, normalizeFontFamily (fontFamily opts)) (sampleLineOf text)"
  let ?t = "width opts - 96 - padding opts * 2"
  let ?s1 = "shrinkFont ?wa ?t (fontSize opts)"
  have w: "workingFontSize (generateImage mt text opts) = growFont ?wa ?t (fontSize opts) ?s1"
    using assms(1) by (simp add: gi_workingFontSize autoFitSize_def Let_def)
  have lo: "min 10 (fontSize opts) \<le> ?s1" using assms(2) by (rule shrinkFont_ge)
  have "?s1 \<le> fontSize opts" by (rule shrinkFont_le)
  with assms(3) have "?s1 \<le> fontSize opts * 3" by simp
  then have hi: "growFont ?wa ?t (fontSize opts) ?s1 \<le> fontSize opts * 3 + 1"
    by (rule growFont_le)
  have "?s1 \<le> growFont ?wa ?t (fontSize opts) ?s1" by (rule growFont_ge)
  with lo hi w show ?thesis by simp
qed

theorem autoFit_bounds_witness:
  "autoFit defaultImageOptions \<and> fontSize defaultImageOptions \<in> \<int> \<and>
   0 \<le> fontSize defaultImageOptions \<and>
   min 10 (fontSize defaultImageOptions)
     \<le> workingFontSize (generateImage monoMeasure [] defaultImageOptions) \<and>
   workingFontSize (generateImage monoMeasure [] defaultImageOptions)
     \<le> 3 * fontSize defaultImageOptions + 1"
proof -
  have h: "autoFit defaultImageOptions" "fontSize defaultImageOptions \<in> \<int>"
    "0 \<le> fontSize defaultImageOptions"
    by (simp_all add: defaultImageOptions_def)
  from h autoFit_bounds [OF h, of monoMeasure "[]"] show ?thesis by blast
qed

text \<open>
  The bounds of C3 as stated fail: for the empty text and the default options the size grows
  from 16 to 49, which is more than 3 times 16; and a requested size of 8 stays 8 when the
  sample line already fills the width.
\<close>

theorem autoFit_bounds_counterexample:
  "\<not> (workingFontSize (generateImage monoMeasure [] defaultImageOptions)
        \<le> 3 * fontSize defaultImageOptions) \<and>
   \<not> (10 \<le> workingFontSize (generateImage monoMeasure ''hello''
        (defaultImageOptions\<lparr>width := 200, fontSize := 8\<rparr>)))"
proof -
  have a: "workingFontSize (generateImage monoMeasure [] defaultImageOptions) = 49"
    by (simp add: gi_workingFontSize defaultImageOptions_def autoFit_empty_default)
  have b: "workingFontSize (generateImage monoMeasure ''hello''
        (defaultImageOptions\<lparr>width := 200, fontSize := 8\<rparr>)) = 8"
    by (simp add: gi_workingFontSize defaultImageOptions_def autoFit_hello_small)
  have c: "fontSize defaultImageOptions = 16" by (simp add: defaultImageOptions_def)
  show ?thesis by (simp add: a b c)
qed

section \<open>A word longer than the line\<close>

text \<open>
  With a glyph advance of 12 pixels (font size 20) and a text width of 24 pixels, the word
  of the 26 letters is cut into 13 lines of two letters.
\<close>

lemma long_word_wrap:
  "wrapText monoMeasure ''abcdefghijklmnopqrstuvwxyz'' 24 20 ff =
     \<lparr> lines = [''ab'', ''cd'', ''ef'', ''gh'', ''ij'', ''kl'', ''mn'', ''op'',
          ''qr'', ''st'', ''uv'', ''wx'', ''yz''], paragraphCount = 1 \<rparr>"
  by (simp add: wrap_defs monoMeasure_apply)

lemma long_word_measure:
  "measureWrapped monoMeasure ''abcdefghijklmnopqrstuvwxyz'' 24 20 ff = 64"
  by (simp add: measure_defs monoMeasure_apply)

lemma long_word_draw:
  "drawText monoMeasure ''abcdefghijklmnopqrstuvwxyz'' x y 24 20 ff AlignCenter =
     (y + 416,
      [(''ab'', x + 12, y), (''cd'', x + 12, y + 32), (''ef'', x + 12, y + 64),
       (''gh'', x + 12, y + 96), (''ij'', x + 12, y + 128), (''kl'', x + 12, y + 160),
       (''mn'', x + 12, y + 192), (''op'', x + 12, y + 224), (''qr'', x + 12, y + 256),
       (''st'', x + 12, y + 288), (''uv'', x + 12, y + 320), (''wx'', x + 12, y + 352),
       (''yz'', x + 12, y + 384)])"
  by (simp add: drawText_def Let_def long_word_wrap drawLine_def PARA_BREAK_def)

text \<open>
  C10 (centering measurement agreement) at this input: \<open>wrapText\<close> and so \<open>drawText\<close> cut
  the word into 13 lines, while \<open>measureWrapped\<close> has no counterpart of \<open>splitLongWord\<close>: it
  counts one line when the word does not fit the empty current line and one more for the word
  itself. The height used for centring is 2 line heights, the cursor advances by 13.
\<close>

theorem measureWrapped_disagrees_long_word:
  "measureWrapped monoMeasure ''abcdefghijklmnopqrstuvwxyz'' 24 20 ''monospace'' = 2 * (20 * 1.6) \<and>
   fst (drawText monoMeasure ''abcdefghijklmnopqrstuvwxyz'' 88 0 24 20 ''monospace'' AlignCenter)
     = 13 * (20 * 1.6)"
  by (simp add: long_word_measure long_word_draw)

lemma clip_opts:
  "width (defaultImageOptions\<lparr>width := 200, height := 200, fontSize := 20, autoFit := False\<rparr>) = 200"
  "height (defaultImageOptions\<lparr>width := 200, height := 200, fontSize := 20, autoFit := False\<rparr>) = 200"
  "padding (defaultImageOptions\<lparr>width := 200, height := 200, fontSize := 20, autoFit := False\<rparr>) = 40"
  "fontSize (defaultImageOptions\<lparr>width := 200, height := 200, fontSize := 20, autoFit := False\<rparr>) = 20"
  "autoFit (defaultImageOptions\<lparr>width := 200, height := 200, fontSize := 20, autoFit := False\<rparr>) = False"
  by (simp_all add: defaultImageOptions_def)

text \<open>
  C2 (height sufficiency) at this input, with \<open>width = 200\<close>, \<open>height = 200\<close>,
  \<open>fontSize = 20\<close> and \<open>autoFit\<close> off: the canvas is 656 logical pixels high, drawing starts
  at 296 because the height used for centring is too small, the last line is drawn at
  680, below the lower edge of the canvas, and the cursor ends at 712.
\<close>

theorem generateImage_clips_long_word:
  "dynamicHeight (generateImage monoMeasure ''abcdefghijklmnopqrstuvwxyz''
     (defaultImageOptions\<lparr>width := 200, height := 200, fontSize := 20, autoFit := False\<rparr>)) = 656 \<and>
   drawStartY (generateImage monoMeasure ''abcdefghijklmnopqrstuvwxyz''
     (defaultImageOptions\<lparr>width := 200, height := 200, fontSize := 20, autoFit := False\<rparr>)) = 296 \<and>
   last (fillTexts (generateImage monoMeasure ''abcdefghijklmnopqrstuvwxyz''
     (defaultImageOptions\<lparr>width := 200, height := 200, fontSize := 20, autoFit := False\<rparr>)))
     = (''yz'', 100, 680) \<and>
   drawEndY (generateImage monoMeasure ''abcdefghijklmnopqrstuvwxyz''
     (defaultImageOptions\<lparr>width := 200, height := 200, fontSize := 20, autoFit := False\<rparr>)) = 712"
proof -
  let ?o = "defaultImageOptions\<lparr>width := 200, height := 200, fontSize := 20, autoFit := False\<rparr>"
  let ?r = "generateImage monoMeasure ''abcdefghijklmnopqrstuvwxyz'' ?o"
  have fs: "workingFontSize ?r = 20"
    by (simp add: gi_workingFontSize clip_opts)
  have w: "wrapped ?r = \<lparr> lines = [''ab'', ''cd'', ''ef'', ''gh'', ''ij'', ''kl'', ''mn'', ''op'',
          ''qr'', ''st'', ''uv'', ''wx'', ''yz''], paragraphCount = 1 \<rparr>"
    by (simp add: gi_wrapped fs clip_opts long_word_wrap)
  have th: "textHeight ?r = 416"
    by (simp add: gi_textHeight fs w)
  have dh: "dynamicHeight ?r = 656"
    by (simp add: gi_dynamicHeight th clip_opts)
  have tt: "totalTextHeight ?r = 64"
    by (simp add: gi_totalTextHeight fs clip_opts long_word_measure)
  have sy: "drawStartY ?r = 296"
    by (simp add: gi_drawStartY dh tt)
  have "(drawEndY ?r, fillTexts ?r) =
      drawText monoMeasure ''abcdefghijklmnopqrstuvwxyz'' 88 296 24 20
        (normalizeFontFamily (fontFamily ?o)) AlignCenter"
    by (simp add: gi_draw fs sy clip_opts)
  then have "drawEndY ?r = 712 \<and> last (fillTexts ?r) = (''yz'', 100, 680)"
    by (simp add: long_word_draw)
  with dh sy show ?thesis by simp
qed

section \<open>Two paragraphs\<close>

lemma two_paragraphs_wrap:
  "wrapText monoMeasure ''a\<newline>b'' 904 16 ff = \<lparr> lines = [''a'', PARA_BREAK, ''b''], paragraphCount = 2 \<rparr>"
  by (simp add: wrap_defs monoMeasure_apply PARA_BREAK_def)

text \<open>
  C4 (text block height formula) at the text of two one-letter paragraphs: the wrap result has
  the three entries \<open>a\<close>, marker, \<open>b\<close>, and \<open>wrapped.lines.length\<close> counts the marker as a
  full line, so the text height is 3 line heights plus the half line height of the paragraph
  separator, not 2 line heights plus it.
\<close>

theorem textHeight_counts_markers:
  "lines (wrapped (generateImage monoMeasure ''a\<newline>b'' (defaultImageOptions\<lparr>autoFit := False\<rparr>)))
     = [''a'', PARA_BREAK, ''b''] \<and>
   textHeight (generateImage monoMeasure ''a\<newline>b'' (defaultImageOptions\<lparr>autoFit := False\<rparr>))
     = 3 * (16 * 1.6) + (2 - 1) * (16 * 1.6) * 0.5 \<and>
   textHeight (generateImage monoMeasure ''a\<newline>b'' (defaultImageOptions\<lparr>autoFit := False\<rparr>))
     \<noteq> 2 * (16 * 1.6) + (2 - 1) * (16 * 1.6) * 0.5"
proof -
  let ?o = "defaultImageOptions\<lparr>autoFit := False\<rparr>"
  let ?r = "generateImage monoMeasure ''a\<newline>b'' ?o"
  have o: "width ?o = 1080" "padding ?o = 40" "fontSize ?o = 16" "autoFit ?o = False"
    by (simp_all add: defaultImageOptions_def)
  have fs: "workingFontSize ?r = 16"
    by (simp add: gi_workingFontSize o)
  have w: "wrapped ?r = \<lparr> lines = [''a'', PARA_BREAK, ''b''], paragraphCount = 2 \<rparr>"
    by (simp add: gi_wrapped fs o two_paragraphs_wrap)
  have th: "textHeight ?r = 3 * (16 * 1.6) + (2 - 1) * (16 * 1.6) * 0.5"
    by (simp add: gi_textHeight fs w)
  show ?thesis by (simp add: w th)
qed

text \<open>
  C5 (paragraph preservation) at the text \<open>__PARA_BREAK__\<close>: the text has one paragraph and
  \<open>paragraphCount\<close> is 1, but the one entry of the wrap result is equal to the marker, so the
  entries read back as two paragraphs.
\<close>

theorem wrapText_sentinel_paragraph_count:
  "lines (wrapText monoMeasure ''__PARA_BREAK__'' 904 16 ''monospace'') = [PARA_BREAK] \<and>
   paragraphCount (wrapText monoMeasure ''__PARA_BREAK__'' 904 16 ''monospace'') = 1 \<and>
   length (split_str CHR 0x0A ''__PARA_BREAK__'') = 1 \<and>
   paragraphsRead (lines (wrapText monoMeasure ''__PARA_BREAK__'' 904 16 ''monospace'')) = 2"
proof -
  have "monoMeasure (16, ''monospace'') PARA_BREAK \<le> 904"
    by (simp add: monoMeasure_apply PARA_BREAK_def)
  then have "wrapText monoMeasure PARA_BREAK 904 16 ''monospace''
      = \<lparr> lines = [PARA_BREAK], paragraphCount = 1 \<rparr>"
    by (rule wrapText_sentinel)
  then have w: "wrapText monoMeasure ''__PARA_BREAK__'' 904 16 ''monospace''
      = \<lparr> lines = [PARA_BREAK], paragraphCount = 1 \<rparr>"
    by (simp add: PARA_BREAK_def)
  show ?thesis by (simp add: w paragraphsRead_def)
qed

section \<open>Validation and cap of the history endpoint\<close>







lemma ensureFile_snapsOf: "ensureFile hf = Some (snapsOf hf)"
  by (cases hf) (simp_all add: ensureFile_def snapsOf_def)









section \<open>Global replacement\<close>

lemma replace_g_inner:
  "(\<And>x2 v. suffix x2 x \<Longrightarrow> x2 \<noteq> [] \<Longrightarrow> m (x2 @ v) = None) \<Longrightarrow>
   replace_g m rep (x @ v) = x @ replace_g m rep v"
proof (induction x)
  case Nil
  then show ?case by simp
next
  case (Cons c x)
  have "m ((c # x) @ v) = None" using Cons.prems [of "c # x" v] by simp
  moreover have "replace_g m rep (x @ v) = x @ replace_g m rep v"
    using Cons.prems by (intro Cons.IH) (simp add: suffix_ConsI)
  ultimately show ?case by simp
qed

lemma sublist_append_left: "sublist x t \<Longrightarrow> sublist x (r @ t)"
  by (metis sublist_order.order_trans suffix_imp_sublist suffixI)

lemma sublist_Cons_left: "sublist x t \<Longrightarrow> sublist x (c # t)"
  by (simp add: sublist_Cons_right)

lemma replace_g_preserve:
  assumes nz: "\<And>t. m t \<noteq> Some 0"
    and before: "\<And>p v n. m (p @ x @ v) = Some n \<Longrightarrow> n \<le> length p"
    and inside: "\<And>x2 v. suffix x2 x \<Longrightarrow> x2 \<noteq> [] \<Longrightarrow> m (x2 @ v) = None"
  shows "sublist x (replace_g m rep (u @ x @ v))"
proof (induction "length u" arbitrary: u rule: less_induct)
  case less
  show ?case
  proof (cases u)
    case Nil
    then show ?thesis using replace_g_inner [of x m rep v] inside by simp
  next
    case (Cons c u')
    show ?thesis
    proof (cases "m (u @ x @ v)")
      case None
      have "sublist x (replace_g m rep (u' @ x @ v))"
        using less [of u'] Cons by simp
      then show ?thesis using None Cons by (simp add: sublist_Cons_left)
    next
      case (Some n)
      have n0: "n \<noteq> 0" using nz [of "u @ x @ v"] Some by auto
      have nle: "n \<le> length u" using before Some by blast
      have "sublist x (replace_g m rep (drop n u @ x @ v))"
        using less [of "drop n u"] n0 Cons by simp
      moreover have "drop n (u @ x @ v) = drop n u @ x @ v" using nle by simp
      ultimately show ?thesis using Some Cons n0
        by (simp add: sublist_append_left del: drop_append)
    qed
  qed
qed

lemma replace_g_preserve_sublist:
  assumes "\<And>t. m t \<noteq> Some 0"
    and "\<And>p v n. m (p @ x @ v) = Some n \<Longrightarrow> n \<le> length p"
    and "\<And>x2 v. suffix x2 x \<Longrightarrow> x2 \<noteq> [] \<Longrightarrow> m (x2 @ v) = None"
    and "sublist x s"
  shows "sublist x (replace_g m rep s)"
proof -
  from assms(4) obtain u v where "s = u @ x @ v" by (auto simp: sublist_def)
  moreover have "sublist x (replace_g m rep (u @ x @ v))"
    using assms(1-3) by (rule replace_g_preserve)
  ultimately show ?thesis by simp
qed

text \<open>A string that cannot begin inside the replacement and continue behind it.\<close>

lemma sublist_skip_left:
  assumes "\<not> sublist y r" and "r \<noteq> []" and "last r \<notin> set y" and "sublist y (r @ t)"
  shows "sublist y t"
proof -
  from assms(4) consider "sublist y r" | "sublist y t"
    | y1 y2 where "y = y1 @ y2" "suffix y1 r" "prefix y2 t"
    by (auto simp: sublist_append)
  then show ?thesis
  proof cases
    case 1 with assms(1) show ?thesis by simp
  next
    case 2 then show ?thesis .
  next
    case 3
    show ?thesis
    proof (cases "y1 = []")
      case True
      with 3 show ?thesis by simp
    next
      case False
      with 3(2) assms(2) have "last y1 = last r" by (auto simp: suffix_def)
      with False 3(1) assms(3) show ?thesis by (metis Un_iff last_in_set set_append)
    qed
  qed
qed

lemma sublist_skip_right:
  assumes "\<not> sublist y r" and "r \<noteq> []" and "hd r \<notin> set y" and "sublist y (t @ r)"
  shows "sublist y t"
proof -
  from assms(4) consider "sublist y t" | "sublist y r"
    | y1 y2 where "y = y1 @ y2" "suffix y1 t" "prefix y2 r"
    by (auto simp: sublist_append)
  then show ?thesis
  proof cases
    case 1 then show ?thesis .
  next
    case 2 with assms(1) show ?thesis by simp
  next
    case 3
    show ?thesis
    proof (cases "y2 = []")
      case True
      with 3 show ?thesis by simp
    next
      case False
      with 3(3) assms(2) have "hd y2 = hd r" by (auto simp: prefix_def)
      with False 3(1) assms(3) show ?thesis by (metis Un_iff hd_in_set set_append)
    qed
  qed
qed

lemma replace_g_prefix_back:
  "rep \<noteq> [] \<Longrightarrow> hd rep \<notin> set y \<Longrightarrow> prefix y (replace_g m rep s) \<Longrightarrow> prefix y s"
proof (induction s arbitrary: y)
  case Nil
  then show ?case by (cases y; cases rep) (auto split: option.splits)
next
  case (Cons c cs)
  show ?case
  proof (cases y)
    case Nil
    then show ?thesis by simp
  next
    case y: (Cons a y')
    show ?thesis
    proof (cases "m (c # cs)")
      case None
      with Cons.prems y have "a = c" "prefix y' (replace_g m rep cs)" by simp_all
      moreover have "hd rep \<notin> set y'" using Cons.prems(2) y by simp
      ultimately show ?thesis using Cons.IH [of y'] Cons.prems(1) y by simp
    next
      case (Some n)
      with Cons.prems y show ?thesis by (cases rep) (auto split: if_splits)
    qed
  qed
qed

lemma replace_g_sublist_back:
  assumes rep: "rep \<noteq> []" "hd rep \<notin> set y"
    and skip: "\<And>t. sublist y (rep @ t) \<Longrightarrow> sublist y t"
    and y: "y \<noteq> []"
  shows "sublist y (replace_g m rep s) \<Longrightarrow> sublist y s"
proof (induction "length s" arbitrary: s rule: less_induct)
  case less
  have copy: "sublist y (c # cs)" if "s = c # cs" "sublist y (c # replace_g m rep cs)" for c cs
  proof -
    from that(2) consider "prefix y (c # replace_g m rep cs)" | "sublist y (replace_g m rep cs)"
      by (auto simp: sublist_Cons_right)
    then show ?thesis
    proof cases
      case 1
      then obtain y' where y': "y = c # y'" "prefix y' (replace_g m rep cs)"
        using y by (cases y) auto
      then have "prefix y' cs"
        using replace_g_prefix_back [of rep y' m cs] rep by simp
      with y' show ?thesis by simp
    next
      case 2
      then have "sublist y cs" using less(1) [of cs] that(1) by simp
      then show ?thesis by (rule sublist_Cons_left)
    qed
  qed
  show ?case
  proof (cases s)
    case Nil
    with less(2) have "sublist y [] \<or> sublist y (rep @ [])"
      by (auto split: option.splits)
    then have "sublist y []" using skip by blast
    with y show ?thesis by simp
  next
    case (Cons c cs)
    show ?thesis
    proof (cases "m (c # cs)")
      case None
      with less(2) Cons copy show ?thesis by simp
    next
      case (Some n)
      show ?thesis
      proof (cases "n = 0")
        case True
        with Some less(2) Cons have "sublist y (rep @ c # replace_g m rep cs)" by simp
        then have "sublist y (c # replace_g m rep cs)" by (rule skip)
        with Cons copy show ?thesis by simp
      next
        case False
        with Some less(2) Cons have "sublist y (rep @ replace_g m rep (drop n s))" by simp
        then have "sublist y (replace_g m rep (drop n s))" by (rule skip)
        moreover have "length (drop n s) < length s" using False Cons by simp
        ultimately have "sublist y (drop n s)" using less(1) by blast
        then show ?thesis using sublist_drop sublist_order.order_trans by blast
      qed
    qed
  qed
qed

section \<open>Literal patterns\<close>

lemma lit_match_None: "\<not> prefix tok t \<Longrightarrow> lit_match tok t = None"
  by (simp add: lit_match_def)

lemma lit_match_Some: "prefix tok t \<Longrightarrow> lit_match tok t = Some (length tok)"
  by (simp add: lit_match_def)

lemma lit_back:
  assumes "rep \<noteq> []" and "hd rep \<notin> set y" and "last rep \<notin> set y" and "\<not> sublist y rep"
    and "y \<noteq> []" and "sublist y (replace_g (lit_match tok) rep s)"
  shows "sublist y s"
  using assms(1,2) _ assms(5,6)
proof (rule replace_g_sublist_back)
  show "sublist y t" if "sublist y (rep @ t)" for t
    using assms(4,1,3) that by (rule sublist_skip_left)
qed

section \<open>The pattern of the collapse step\<close>

lemma collapse_match_shape:
  assumes "collapse_match s = Some n"
  shows "n \<noteq> 0 \<and> (\<forall>c \<in> set (take n s). is_js_space c \<or> c = CHR '','') \<and>
         CHR '','' \<in> set (take n s)"
proof -
  define ws1 where "ws1 = takeWhile is_js_space s"
  define r1 where "r1 = dropWhile is_js_space s"
  have s: "s = ws1 @ r1" by (simp add: ws1_def r1_def)
  from assms obtain r2 where r1: "r1 = CHR '','' # r2"
    by (auto simp: collapse_match_def Let_def r1_def split: list.splits if_splits)
  define ws2 where "ws2 = takeWhile is_js_space r2"
  define r3 where "r3 = dropWhile is_js_space r2"
  define commas where "commas = takeWhile (\<lambda>c. c = CHR '','') r3"
  have r2: "r2 = ws2 @ r3" by (simp add: ws2_def r3_def)
  have r3: "r3 = commas @ dropWhile (\<lambda>c. c = CHR '','') r3" by (simp add: commas_def)
  from assms r1 have n: "n = length ws1 + 1 + length ws2 + length commas"
    by (auto simp: collapse_match_def Let_def r1_def [symmetric] ws1_def ws2_def r3_def commas_def
        split: if_splits)
  have "s = (ws1 @ CHR '','' # ws2 @ commas) @ dropWhile (\<lambda>c. c = CHR '','') r3"
    using s r1 r2 r3 by simp
  then have "take n s = take n ((ws1 @ CHR '','' # ws2 @ commas) @ dropWhile (\<lambda>c. c = CHR '','') r3)"
    by simp
  also have "\<dots> = ws1 @ CHR '','' # ws2 @ commas" using n by simp
  finally have tk: "take n s = ws1 @ CHR '','' # ws2 @ commas" .
  have "\<forall>c \<in> set ws1. is_js_space c" "\<forall>c \<in> set ws2. is_js_space c"
    "\<forall>c \<in> set commas. c = CHR '',''"
    by (auto simp: ws1_def ws2_def commas_def dest: set_takeWhileD)
  with tk n show ?thesis by auto
qed

lemma collapse_match_nz: "collapse_match t \<noteq> Some 0"
  using collapse_match_shape [of t 0] by auto

lemma collapse_preserve:
  assumes "x \<noteq> []" and "\<not> is_js_space (hd x)" and "hd x \<noteq> CHR '',''"
    and "\<not> is_js_space (last x)" and "last x \<noteq> CHR '',''" and "CHR '','' \<notin> set x"
    and "sublist x s"
  shows "sublist x (replace_g collapse_match rep s)"
proof (rule replace_g_preserve_sublist [OF _ _ _ assms(7)])
  show "collapse_match t \<noteq> Some 0" for t by (rule collapse_match_nz)
  show "n \<le> length p" if m: "collapse_match (p @ x @ v) = Some n" for p v n
  proof (rule ccontr)
    assume "\<not> n \<le> length p"
    then obtain k where "n = length p + Suc k"
      by (metis add_Suc_right less_imp_Suc_add not_le)
    then have "hd x \<in> set (take n (p @ x @ v))" using assms(1) by (cases x) auto
    with collapse_match_shape [OF m] assms(2,3) show False by auto
  qed
  show "collapse_match (x2 @ v) = None" if "suffix x2 x" "x2 \<noteq> []" for x2 v
  proof (rule ccontr)
    assume "collapse_match (x2 @ v) \<noteq> None"
    then obtain n where m: "collapse_match (x2 @ v) = Some n" by auto
    from that have lx: "last x2 = last x" and sub: "set x2 \<subseteq> set x"
      by (auto simp: suffix_def)
    show False
    proof (cases "length x2 \<le> n")
      case True
      then have "last x2 \<in> set (take n (x2 @ v))" using that(2) by simp
      with collapse_match_shape [OF m] lx assms(4,5) show False by auto
    next
      case False
      then have tk: "take n (x2 @ v) = take n x2" by simp
      have "CHR '','' \<in> set (take n (x2 @ v))" using collapse_match_shape [OF m] by blast
      then have "CHR '','' \<in> set (take n x2)" unfolding tk .
      then have "CHR '','' \<in> set x2" by (rule in_set_takeD)
      with sub assms(6) show False by auto
    qed
  qed
qed

section \<open>trim\<close>

lemma dropWhile_preserve:
  assumes "sublist x s" and "x \<noteq> []" and "\<not> P (hd x)"
  shows "sublist x (dropWhile P s)"
proof -
  from assms(1) obtain ps ss where s: "s = ps @ x @ ss" by (auto simp: sublist_def)
  from assms(2,3) have dx: "dropWhile P (x @ ss) = x @ ss" by (cases x) auto
  show ?thesis
  proof (cases "\<forall>a \<in> set ps. P a")
    case True
    then have "dropWhile P s = x @ ss" using s dx by simp
    then show ?thesis by simp
  next
    case False
    then obtain a where "a \<in> set ps" "\<not> P a" by auto
    then have "dropWhile P s = dropWhile P ps @ x @ ss" using s by simp
    then show ?thesis by simp
  qed
qed

lemma trim_preserve:
  assumes "sublist x s" and "x \<noteq> []" and "\<not> is_js_space (hd x)" and "\<not> is_js_space (last x)"
  shows "sublist x (trim s)"
proof -
  have "sublist x (dropWhile is_js_space s)" using assms(1-3) by (rule dropWhile_preserve)
  then have "sublist (rev x) (rev (dropWhile is_js_space s))" by simp
  then have "sublist (rev x) (dropWhile is_js_space (rev (dropWhile is_js_space s)))"
    using assms(2,4) by (intro dropWhile_preserve) (simp_all add: hd_rev)
  then show ?thesis by (simp add: trim_def sublist_rev_left)
qed

lemma trim_sublist: "sublist (trim s) s"
proof -
  have "sublist (dropWhile is_js_space (rev (dropWhile is_js_space s))) (rev (dropWhile is_js_space s))"
    by simp
  then have "sublist (trim s) (dropWhile is_js_space s)"
    by (simp add: trim_def sublist_rev_left)
  then show ?thesis using sublist_dropWhile sublist_order.order_trans by blast
qed

section \<open>Font-family normalisation\<close>

lemmas token_defs = tok_jetbrains_def tok_fira_def tok_source_def
  name_jetbrains_def name_fira_def name_source_def

lemma sublist_append_right: "sublist x t \<Longrightarrow> sublist x (t @ r)"
  by (metis sublist_order.order_trans prefix_imp_sublist prefixI)

text \<open>The string that the fallback test of \<open>normalizeFontFamily\<close> looks at.\<close>

lemma normalize_eq:
  "normalizeFontFamily s =
     (if has_generic (trim (replace_g collapse_match '', '' (replace_g var_match [] (substituteKnown s))))
      then trim (replace_g collapse_match '', '' (replace_g var_match [] (substituteKnown s)))
      else trim (replace_g collapse_match '', '' (replace_g var_match [] (substituteKnown s)))
             @ '', monospace'')"
  by (simp add: normalizeFontFamily_def Let_def)

lemma name_survives:
  assumes "sublist x t" and "x \<in> {name_jetbrains, name_fira, name_source}"
  shows "sublist x (trim (replace_g collapse_match '', '' t))"
proof -
  from assms(1) have "sublist x (replace_g collapse_match '', '' t)"
    by (rule collapse_preserve [rotated 6]) (use assms(2) in \<open>auto simp: token_defs is_js_space_def\<close>)
  then show ?thesis
    by (rule trim_preserve) (use assms(2) in \<open>auto simp: token_defs is_js_space_def\<close>)
qed

lemma not_sublist_comma_space:
  assumes "y \<noteq> []" and "CHR '','' \<notin> set y" and "CHR '' '' \<notin> set y"
  shows "\<not> sublist y '', ''"
proof
  assume "sublist y '', ''"
  then have "set y \<subseteq> set '', ''" by (rule set_mono_sublist)
  moreover from assms(1) have "hd y \<in> set y" by simp
  ultimately show False using assms(2,3) by auto
qed

lemma collapse_trim_back:
  assumes "y \<noteq> []" and "CHR '','' \<notin> set y" and "CHR '' '' \<notin> set y"
    and "sublist y (trim (replace_g collapse_match '', '' t))"
  shows "sublist y t"
proof -
  have c: "sublist y (replace_g collapse_match '', '' t)"
    using assms(4) trim_sublist sublist_order.order_trans by blast
  have skip: "sublist y u" if "sublist y ('', '' @ u)" for u
    using not_sublist_comma_space [OF assms(1-3)] _ _ that
    by (rule sublist_skip_left) (use assms in simp_all)
  have "'', '' \<noteq> []" "hd '', '' \<notin> set y" using assms(2) by simp_all
  then show ?thesis using skip assms(1) c by (rule replace_g_sublist_back)
qed

lemma substitute_back:
  assumes "y \<noteq> []" and "CHR 0x22 \<notin> set y"
    and "\<not> sublist y name_jetbrains" and "\<not> sublist y name_fira" and "\<not> sublist y name_source"
    and "sublist y (substituteKnown s)"
  shows "sublist y s"
proof -
  have q: "hd name_jetbrains \<notin> set y" "last name_jetbrains \<notin> set y"
    "hd name_fira \<notin> set y" "last name_fira \<notin> set y"
    "hd name_source \<notin> set y" "last name_source \<notin> set y"
    using assms(2) by (simp_all add: token_defs)
  have ne: "name_jetbrains \<noteq> []" "name_fira \<noteq> []" "name_source \<noteq> []"
    by (simp_all add: token_defs)
  from assms(6) have "sublist y (replace_g (lit_match tok_fira) name_fira
      (replace_g (lit_match tok_jetbrains) name_jetbrains s))"
    unfolding substituteKnown_def
    by (rule lit_back [where rep = name_source and tok = tok_source, rotated 5])
       (use ne(3) q(5,6) assms(5,1) in simp_all)
  then have "sublist y (replace_g (lit_match tok_jetbrains) name_jetbrains s)"
    by (rule lit_back [where rep = name_fira and tok = tok_fira, rotated 5])
       (use ne(2) q(3,4) assms(4,1) in simp_all)
  then show ?thesis
    by (rule lit_back [where rep = name_jetbrains and tok = tok_jetbrains, rotated 5])
       (use ne(1) q(1,2) assms(3,1) in simp_all)
qed

lemmas normalize_defs = normalizeFontFamily_def substituteKnown_def lit_match_def var_match_def
  collapse_match_def has_generic_def trim_def is_js_space_def sublist_code Let_def

lemma replace_g_copy:
  "(\<And>x2. suffix x2 x \<Longrightarrow> x2 \<noteq> [] \<Longrightarrow> m (x2 @ v) = None) \<Longrightarrow>
   replace_g m rep (x @ v) = x @ replace_g m rep v"
proof (induction x)
  case Nil
  then show ?case by simp
next
  case (Cons c x)
  have "m ((c # x) @ v) = None" using Cons.prems [of "c # x"] by simp
  moreover have "replace_g m rep (x @ v) = x @ replace_g m rep v"
    using Cons.prems by (intro Cons.IH) (simp add: suffix_ConsI)
  ultimately show ?case by simp
qed

text \<open>A proper, non-empty beginning of \<open>var(\<close> ends in one of the letters v, a, r.\<close>

lemma var_open_split:
  assumes "''var('' = y1 @ y2" and "y1 \<noteq> []" and "y2 \<noteq> []"
  shows "last y1 \<in> {CHR ''v'', CHR ''a'', CHR ''r''}"
  using assms by (auto simp: append_eq_Cons_conv Cons_eq_append_conv)

lemma var_match_token:
  assumes "CHR '')'' \<notin> set inner"
  shows "var_match (''var('' @ inner @ '')'' @ post) =
     Some (4 + length inner + 1 + length (takeWhile is_js_space post) +
           (case dropWhile is_js_space post of [] \<Rightarrow> 0
            | c # _ \<Rightarrow> (if c = CHR '','' then 1 else 0)))"
proof -
  have tw: "takeWhile (\<lambda>c. c \<noteq> CHR '')'') (inner @ CHR '')'' # post) = inner"
    using assms by (induction inner) auto
  have dw: "dropWhile (\<lambda>c. c \<noteq> CHR '')'') (inner @ CHR '')'' # post) = CHR '')'' # post"
    using assms by (induction inner) auto
  show ?thesis
    by (simp add: var_match_def Let_def tw dw)
qed

lemma output_no_var:
  assumes "\<not> sublist ''var('' (replace_g var_match [] (substituteKnown s))"
  shows "\<not> sublist ''var('' (normalizeFontFamily s)"
proof
  let ?core = "trim (replace_g collapse_match '', '' (replace_g var_match [] (substituteKnown s)))"
  assume a: "sublist ''var('' (normalizeFontFamily s)"
  have "sublist ''var('' ?core"
  proof (cases "has_generic ?core")
    case True
    with a show ?thesis by (simp add: normalize_eq)
  next
    case False
    with a have "sublist ''var('' (?core @ '', monospace'')" by (simp add: normalize_eq)
    then show ?thesis
      by (rule sublist_skip_right [rotated 3]) (simp_all add: sublist_code)
  qed
  then have "sublist ''var('' (replace_g var_match [] (substituteKnown s))"
    by (rule collapse_trim_back [rotated 3]) simp_all
  with assms show False by simp
qed

section \<open>Occurrences in appended strings\<close>

lemma sublist_split_last:
  assumes "a \<noteq> []" and "last a \<notin> set y" and "sublist y (a @ b)"
  shows "sublist y a \<or> sublist y b"
proof -
  from assms(3) consider "sublist y a" | "sublist y b"
    | y1 y2 where "y = y1 @ y2" "suffix y1 a" "prefix y2 b"
    by (auto simp: sublist_append)
  then show ?thesis
  proof cases
    case 3
    show ?thesis
    proof (cases "y1 = []")
      case True
      with 3 show ?thesis by auto
    next
      case False
      with 3(2) assms(1) have "last y1 = last a" by (auto simp: suffix_def)
      with False 3(1) assms(2) show ?thesis by (metis Un_iff last_in_set set_append)
    qed
  qed auto
qed

lemma sublist_split_hd:
  assumes "b \<noteq> []" and "hd b \<notin> set y" and "sublist y (a @ b)"
  shows "sublist y a \<or> sublist y b"
proof -
  from assms(3) consider "sublist y a" | "sublist y b"
    | y1 y2 where "y = y1 @ y2" "suffix y1 a" "prefix y2 b"
    by (auto simp: sublist_append)
  then show ?thesis
  proof cases
    case 3
    show ?thesis
    proof (cases "y2 = []")
      case True
      with 3 show ?thesis by auto
    next
      case False
      with 3(3) assms(1) have "hd y2 = hd b" by (auto simp: prefix_def)
      with False 3(1) assms(2) show ?thesis by (metis Un_iff hd_in_set set_append)
    qed
  qed auto
qed

text \<open>No \<open>var(\<close> begins inside a string that contains none and does not end in v, a or r.\<close>

lemma no_var_start:
  assumes "\<not> sublist ''var('' x"
    and "x = [] \<or> r = [] \<or> last x \<notin> {CHR ''v'', CHR ''a'', CHR ''r''}"
    and "suffix x2 x" and "x2 \<noteq> []"
  shows "\<not> prefix ''var('' (x2 @ r)"
proof
  assume "prefix ''var('' (x2 @ r)"
  then consider "prefix ''var('' x2" | us where "''var('' = x2 @ us" "prefix us r"
    using prefix_append [of "''var(''" x2 r] by blast
  then show False
  proof cases
    case 1
    then have "sublist ''var('' x"
      using assms(3) by (meson prefix_imp_sublist suffix_imp_sublist sublist_order.order_trans)
    with assms(1) show False by simp
  next
    case 2
    show False
    proof (cases "us = []")
      case True
      with 2 assms(3) have "suffix ''var('' x" by simp
      with assms(1) show False by auto
    next
      case False
      with 2(1) assms(4) have "last x2 \<in> {CHR ''v'', CHR ''a'', CHR ''r''}"
        by (rule var_open_split)
      moreover from assms(3,4) have "last x2 = last x" "x \<noteq> []" by (auto simp: suffix_def)
      moreover from False 2(2) have "r \<noteq> []" by auto
      ultimately show False using assms(2) by auto
    qed
  qed
qed

lemma not_joinSafe_var: "c \<in> {CHR ''v'', CHR ''a'', CHR ''r''} \<Longrightarrow> \<not> joinSafe c"
  by (auto simp: joinSafe_def)

lemma sep_joinSafe: "is_js_space c \<or> c = CHR '','' \<Longrightarrow> joinSafe c"
  by (auto simp: joinSafe_def is_js_space_def)

lemma plain_no_var_start:
  assumes "separated (Plain t # ps)" and "suffix x2 t" and "x2 \<noteq> []"
  shows "\<not> prefix ''var('' (x2 @ render ps)"
proof (rule no_var_start [OF _ _ assms(2,3)])
  show "\<not> sublist ''var('' t" using assms(1) by simp
  show "t = [] \<or> render ps = [] \<or> last t \<notin> {CHR ''v'', CHR ''a'', CHR ''r''}"
    using assms(1) not_joinSafe_var [of "last t"] by auto
qed

lemma sepOk_chars:
  assumes "sepOk sep r" and "c \<in> set sep"
  shows "is_js_space c \<or> c = CHR '',''"
proof (cases "c \<in> set (takeWhile is_js_space sep)")
  case True
  then show ?thesis using set_takeWhileD by fast
next
  case False
  have "sep = takeWhile is_js_space sep @ dropWhile is_js_space sep" by simp
  then have "c \<in> set (takeWhile is_js_space sep) \<or> c \<in> set (dropWhile is_js_space sep)"
    using assms(2) by (metis Un_iff set_append)
  with False have "c \<in> set (dropWhile is_js_space sep)" by simp
  moreover have "dropWhile is_js_space sep = [] \<or> dropWhile is_js_space sep = '',''"
    using assms(1) by (auto simp: sepOk_def Let_def)
  ultimately show ?thesis using assms(2) by auto
qed

lemma token_tail:
  assumes "CHR '')'' \<notin> set inner" and "\<not> sublist ''var('' inner" and "sepOk sep r"
  shows "\<not> sublist ''var('' (''ar('' @ inner @ '')'' @ sep)"
    and "last (''ar('' @ inner @ '')'' @ sep) \<notin> {CHR ''v'', CHR ''a'', CHR ''r''}"
proof -
  have v: "CHR ''v'' \<notin> set sep"
    using sepOk_chars [OF assms(3), of "CHR ''v''"] by (auto simp: is_js_space_def)
  have l: "last sep \<notin> {CHR ''v'', CHR ''a'', CHR ''r''}" if "sep \<noteq> []"
  proof -
    from that have "last sep \<in> set sep" by simp
    then have "is_js_space (last sep) \<or> last sep = CHR '',''" by (rule sepOk_chars [OF assms(3)])
    then show ?thesis by (auto simp: is_js_space_def)
  qed
  note sepc = v l
  show "\<not> sublist ''var('' (''ar('' @ inner @ '')'' @ sep)"
  proof
    assume "sublist ''var('' (''ar('' @ inner @ '')'' @ sep)"
    then have "sublist ''var('' ((''ar('' @ inner) @ ('')'' @ sep))" by simp
    then have "sublist ''var('' (''ar('' @ inner) \<or> sublist ''var('' ('')'' @ sep)"
      by (rule sublist_split_hd [rotated 2]) simp_all
    then show False
    proof
      assume "sublist ''var('' (''ar('' @ inner)"
      then have "sublist ''var('' inner" by (simp add: sublist_Cons_right)
      with assms(2) show False by simp
    next
      assume "sublist ''var('' ('')'' @ sep)"
      then have "set ''var('' \<subseteq> set ('')'' @ sep)" by (rule set_mono_sublist)
      with sepc(1) show False by auto
    qed
  qed
  show "last (''ar('' @ inner @ '')'' @ sep) \<notin> {CHR ''v'', CHR ''a'', CHR ''r''}"
    using sepc(2) by (cases "sep = []") simp_all
qed

lemma token_no_var_start:
  assumes "separated (Var inner sep # ps)"
    and "suffix x2 (''ar('' @ inner @ '')'' @ sep)" and "x2 \<noteq> []"
  shows "\<not> prefix ''var('' (x2 @ render ps)"
proof (rule no_var_start [OF _ _ assms(2,3)])
  show "\<not> sublist ''var('' (''ar('' @ inner @ '')'' @ sep)"
    using assms(1) by (intro token_tail(1) [where r = "render ps"]) simp_all
  show "''ar('' @ inner @ '')'' @ sep = [] \<or> render ps = [] \<or>
      last (''ar('' @ inner @ '')'' @ sep) \<notin> {CHR ''v'', CHR ''a'', CHR ''r''}"
    using assms(1) token_tail(2) [where r = "render ps" and inner = inner and sep = sep] by simp
qed

section \<open>The strip step on separated font stacks\<close>

lemma eat_sep:
  assumes "sepOk sep r"
  shows "length (takeWhile is_js_space (sep @ r)) +
         (case dropWhile is_js_space (sep @ r) of [] \<Rightarrow> 0
          | c # _ \<Rightarrow> (if c = CHR '','' then 1 else 0)) = length sep"
proof -
  define ws where "ws = takeWhile is_js_space sep"
  define rest where "rest = dropWhile is_js_space sep"
  have sep: "sep = ws @ rest" by (simp add: ws_def rest_def)
  have ws: "\<And>c. c \<in> set ws \<Longrightarrow> is_js_space c"
    by (auto simp: ws_def dest: set_takeWhileD)
  from assms consider "rest = []" "\<not> startsSep r" | "rest = '',''"
    by (auto simp: sepOk_def Let_def rest_def)
  then show ?thesis
  proof cases
    case 1
    then have r: "takeWhile is_js_space r = []" "dropWhile is_js_space r = r"
      by (cases r; simp add: startsSep_def)+
    have "takeWhile is_js_space (sep @ r) = ws" "dropWhile is_js_space (sep @ r) = r"
      using ws 1(1) r by (simp_all add: sep)
    moreover have "(case r of [] \<Rightarrow> 0 | c # _ \<Rightarrow> (if c = CHR '','' then 1 else (0::nat))) = 0"
      using 1(2) by (cases r) (simp_all add: startsSep_def)
    ultimately show ?thesis using 1(1) by (simp add: sep)
  next
    case 2
    have nc: "\<not> is_js_space CHR '',''" by (simp add: is_js_space_def)
    have "takeWhile is_js_space (sep @ r) = ws"
      "dropWhile is_js_space (sep @ r) = CHR '','' # r"
      using ws 2 nc by (simp_all add: sep)
    then show ?thesis using 2 by (simp add: sep)
  qed
qed

lemma var_match_piece:
  assumes "separated (Var inner sep # ps)"
  shows "\<exists>n. n \<noteq> 0 \<and> var_match (render (Var inner sep # ps)) = Some n \<and>
             drop n (render (Var inner sep # ps)) = render ps"
proof -
  let ?n = "4 + length inner + 1 + length sep"
  from assms have c: "CHR '')'' \<notin> set inner" and so: "sepOk sep (render ps)" by simp_all
  have "var_match (''var('' @ inner @ '')'' @ (sep @ render ps)) = Some ?n"
    using var_match_token [OF c, of "sep @ render ps"] eat_sep [OF so] by simp
  moreover have "drop ?n ((''var('' @ inner @ '')'' @ sep) @ render ps) = render ps"
  proof -
    define pfx where "pfx = ''var('' @ inner @ '')'' @ sep"
    have "length pfx = ?n" by (simp add: pfx_def)
    then have "drop ?n (pfx @ render ps) = render ps" by simp
    then show ?thesis by (simp only: pfx_def)
  qed
  ultimately show ?thesis by (intro exI [of _ ?n]) simp
qed

lemma strip_texts: "separated ps \<Longrightarrow> replace_g var_match [] (render ps) = texts ps"
proof (induction ps)
  case Nil
  then show ?case by (simp add: var_match_def)
next
  case (Cons p ps)
  then have IH: "replace_g var_match [] (render ps) = texts ps"
    by (cases p) simp_all
  show ?case
  proof (cases p)
    case (Plain t)
    have "replace_g var_match [] (t @ render ps) = t @ replace_g var_match [] (render ps)"
    proof (rule replace_g_copy)
      fix x2 assume "suffix x2 t" "x2 \<noteq> []"
      then have "\<not> prefix ''var('' (x2 @ render ps)"
        using Cons.prems Plain by (intro plain_no_var_start) simp_all
      then show "var_match (x2 @ render ps) = None" by (simp add: var_match_def)
    qed
    with IH Plain show ?thesis by simp
  next
    case (Var inner sep)
    with Cons.prems obtain n where n: "n \<noteq> 0"
      "var_match (render (p # ps)) = Some n" "drop n (render (p # ps)) = render ps"
      using var_match_piece [of inner sep ps] by auto
    obtain c cs where r: "render (p # ps) = c # cs" using Var by simp
    have "replace_g var_match [] (c # cs) = replace_g var_match [] (drop n (c # cs))"
      using n(1,2) r by simp
    with n(3) r IH Var show ?thesis by simp
  qed
qed

lemma plain_in_texts: "Plain t \<in> set ps \<Longrightarrow> sublist t (texts ps)"
proof (induction ps)
  case Nil
  then show ?case by simp
next
  case (Cons p ps)
  show ?case
  proof (cases "p = Plain t")
    case True
    then show ?thesis by simp
  next
    case False
    with Cons have "sublist t (texts ps)" by simp
    then show ?thesis by (cases p) (simp_all add: sublist_append_left)
  qed
qed

lemma plain_in_render: "Plain t \<in> set ps \<Longrightarrow> sublist t (render ps)"
proof (induction ps)
  case Nil
  then show ?case by simp
next
  case (Cons p ps)
  show ?case
  proof (cases "p = Plain t")
    case True
    then show ?thesis by simp
  next
    case False
    with Cons have "sublist t (render ps)" by simp
    then show ?thesis
      by (cases p) (simp_all add: sublist_append_left sublist_Cons_left)
  qed
qed

lemma separated_plain: "separated ps \<Longrightarrow> Plain t \<in> set ps \<Longrightarrow> \<not> sublist ''var('' t"
proof (induction ps)
  case Nil
  then show ?case by simp
next
  case (Cons p ps)
  then show ?case by (cases p) auto
qed

text \<open>What occurs in the text left by the strip step occurs inside one plain piece.\<close>

lemma texts_occurrence:
  assumes "separated ps" and "\<And>c. joinSafe c \<Longrightarrow> c \<notin> set y" and "y \<noteq> []"
    and "sublist y (texts ps)"
  shows "\<exists>t. Plain t \<in> set ps \<and> sublist y t"
  using assms(1,4)
proof (induction ps)
  case Nil
  with assms(3) show ?case by simp
next
  case (Cons p ps)
  show ?case
  proof (cases p)
    case (Var inner sep)
    with Cons show ?thesis by auto
  next
    case (Plain t)
    with Cons.prems have sep: "separated ps" and sub: "sublist y (t @ texts ps)" by simp_all
    have "sublist y t \<or> sublist y (texts ps)"
    proof (cases "t = [] \<or> texts ps = []")
      case True
      with sub show ?thesis by auto
    next
      case False
      then have "ps \<noteq> []" by auto
      with False Cons.prems(1) Plain have "joinSafe (last t)" by auto
      then have "last t \<notin> set y" by (rule assms(2))
      with False sub show ?thesis by (intro sublist_split_last) simp_all
    qed
    then show ?thesis
    proof
      assume "sublist y t"
      with Plain show ?thesis by auto
    next
      assume "sublist y (texts ps)"
      with Cons.IH sep obtain t' where "Plain t' \<in> set ps" "sublist y t'" by blast
      then show ?thesis by auto
    qed
  qed
qed

lemma strip_no_var:
  assumes "separated ps"
  shows "\<not> sublist ''var('' (replace_g var_match [] (render ps))"
proof
  assume "sublist ''var('' (replace_g var_match [] (render ps))"
  then have "sublist ''var('' (texts ps)" using assms by (simp add: strip_texts)
  then obtain t where "Plain t \<in> set ps" "sublist ''var('' t"
    using texts_occurrence [OF assms, of "''var(''"] by (auto simp: joinSafe_def)
  with separated_plain [OF assms] show False by blast
qed

section \<open>The substitution of a known token on separated font stacks\<close>

lemma inner_eq:
  "CHR '')'' \<notin> set i0 \<Longrightarrow> CHR '')'' \<notin> set i \<Longrightarrow>
   prefix (i0 @ '')'') (i @ '')'' @ y) \<Longrightarrow> i0 = i"
proof (induction i0 arbitrary: i)
  case Nil
  then show ?case by (cases i) auto
next
  case (Cons a i0)
  show ?case
  proof (cases i)
    case Nil
    with Cons.prems show ?thesis by auto
  next
    case (Cons b i')
    with Cons.prems Cons.IH [of i'] show ?thesis by auto
  qed
qed

lemma token_prefix_eq:
  assumes "CHR '')'' \<notin> set i0" and "CHR '')'' \<notin> set i"
    and "prefix (''var('' @ i0 @ '')'') ((''var('' @ i @ '')'' @ sep) @ r)"
  shows "i0 = i"
proof -
  from assms(3) have "prefix (i0 @ '')'') (i @ '')'' @ (sep @ r))" by simp
  with assms(1,2) show ?thesis by (rule inner_eq)
qed

lemma var_prefix_token: "prefix ''var('' (''var('' @ i0 @ '')'')"
  by simp

lemma lit_replace_at:
  assumes "tok \<noteq> []"
  shows "replace_g (lit_match tok) rep (tok @ x) = rep @ replace_g (lit_match tok) rep x"
proof -
  obtain c cs where c: "tok @ x = c # cs" using assms by (cases tok) auto
  have m: "lit_match tok (c # cs) = Some (length tok)" using c by (metis lit_match_Some prefixI)
  have "drop (length tok) (c # cs) = x" using c by (metis append_eq_conv_conj)
  with m assms c show ?thesis by simp
qed

lemma subst_replace:
  assumes "separated ps" and "CHR '')'' \<notin> set i0"
  shows "replace_g (lit_match (''var('' @ i0 @ '')'')) name (render ps) =
         render (map (subst1 i0 name) ps)"
  using assms(1)
proof (induction ps)
  case Nil
  then show ?case by (simp add: lit_match_def)
next
  case (Cons p ps)
  let ?tok = "''var('' @ i0 @ '')''"
  have novar: "lit_match ?tok r = None" if "\<not> prefix ''var('' r" for r
  proof -
    have "\<not> prefix ?tok r"
      using that var_prefix_token [of i0] prefix_order.trans by blast
    then show ?thesis by (rule lit_match_None)
  qed
  from Cons have IH: "replace_g (lit_match ?tok) name (render ps) = render (map (subst1 i0 name) ps)"
    by (cases p) simp_all
  show ?case
  proof (cases p)
    case (Plain t)
    have "replace_g (lit_match ?tok) name (t @ render ps) =
        t @ replace_g (lit_match ?tok) name (render ps)"
    proof (rule replace_g_copy)
      fix x2 assume "suffix x2 t" "x2 \<noteq> []"
      then have "\<not> prefix ''var('' (x2 @ render ps)"
        using Cons.prems Plain by (intro plain_no_var_start) simp_all
      then show "lit_match ?tok (x2 @ render ps) = None" by (rule novar)
    qed
    with IH Plain show ?thesis by simp
  next
    case (Var inner sep)
    from Cons.prems Var have so: "sepOk sep (render ps)" and ci: "CHR '')'' \<notin> set inner"
      by simp_all
    show ?thesis
    proof (cases "inner = i0")
      case True
      have 1: "replace_g (lit_match ?tok) name (?tok @ (sep @ render ps)) =
          name @ replace_g (lit_match ?tok) name (sep @ render ps)"
        by (rule lit_replace_at) simp
      have 2: "replace_g (lit_match ?tok) name (sep @ render ps) =
          sep @ replace_g (lit_match ?tok) name (render ps)"
      proof (rule replace_g_copy)
        fix x2 assume x2: "suffix x2 sep" "x2 \<noteq> []"
        then have "hd x2 \<in> set sep" by (auto simp: suffix_def)
        then have "is_js_space (hd x2) \<or> hd x2 = CHR '',''" by (rule sepOk_chars [OF so])
        then have "hd x2 \<noteq> CHR ''v''" by (auto simp: is_js_space_def)
        then have "\<not> prefix ''var('' (x2 @ render ps)" using x2(2) by (cases x2) auto
        then show "lit_match ?tok (x2 @ render ps) = None" by (rule novar)
      qed
      have "render (p # ps) = ?tok @ (sep @ render ps)" using Var True by simp
      with 1 2 IH Var True show ?thesis by simp
    next
      case False
      let ?x = "''var('' @ inner @ '')'' @ sep"
      have "replace_g (lit_match ?tok) name (?x @ render ps) =
          ?x @ replace_g (lit_match ?tok) name (render ps)"
      proof (rule replace_g_copy)
        fix x2 assume x2: "suffix x2 ?x" "x2 \<noteq> []"
        show "lit_match ?tok (x2 @ render ps) = None"
        proof (cases "x2 = ?x")
          case True
          have "\<not> prefix ?tok (?x @ render ps)"
            using token_prefix_eq [OF assms(2) ci, of sep "render ps"] False by blast
          with True show ?thesis by (simp add: lit_match_None)
        next
          case neq: False
          have "?x = CHR ''v'' # (''ar('' @ inner @ '')'' @ sep)" by simp
          with x2(1) neq have "suffix x2 (''ar('' @ inner @ '')'' @ sep)"
            by (metis suffix_Cons)
          then have "\<not> prefix ''var('' (x2 @ render ps)"
            using Cons.prems Var x2(2) by (intro token_no_var_start) simp_all
          then show ?thesis by (rule novar)
        qed
      qed
      moreover have "render (p # ps) = ?x @ render ps" using Var by simp
      ultimately show ?thesis using IH Var False by simp
    qed
  qed
qed

lemma startsSep_append: "t \<noteq> [] \<Longrightarrow> startsSep (t @ x) = startsSep t"
  by (cases t) (simp_all add: startsSep_def)

lemma startsSep_subst:
  assumes "name \<noteq> []" and "\<not> startsSep name"
  shows "startsSep (render (map (subst1 i0 name) ps)) = startsSep (render ps)"
proof (induction ps)
  case Nil
  then show ?case by simp
next
  case (Cons p ps)
  show ?case
  proof (cases p)
    case (Plain t)
    with Cons show ?thesis by (cases "t = []") (simp_all add: startsSep_append)
  next
    case (Var inner sep)
    have "startsSep ((name @ sep) @ x) = False" for x
      using assms by (simp add: startsSep_append del: append_assoc)
    moreover have "startsSep (''var('' @ x) = False" for x
      by (simp add: startsSep_def is_js_space_def)
    ultimately show ?thesis using Var by simp
  qed
qed

lemma separated_subst:
  assumes "separated ps" and "name \<noteq> []" and "\<not> startsSep name"
    and "CHR ''v'' \<notin> set name" and "joinSafe (last name)"
  shows "separated (map (subst1 i0 name) ps)"
  using assms(1)
proof (induction ps)
  case Nil
  then show ?case by simp
next
  case (Cons p ps)
  then have IH: "separated (map (subst1 i0 name) ps)" by (cases p) simp_all
  show ?case
  proof (cases p)
    case (Plain t)
    with Cons.prems IH show ?thesis by auto
  next
    case (Var inner sep)
    from Cons.prems Var have so: "sepOk sep (render ps)" by simp
    have so': "sepOk sep (render (map (subst1 i0 name) ps))"
      using so by (simp add: sepOk_def startsSep_subst [OF assms(2,3)])
    show ?thesis
    proof (cases "inner = i0")
      case True
      have "CHR ''v'' \<notin> set (name @ sep)"
        using assms(4) sepOk_chars [OF so, of "CHR ''v''"] by (auto simp: is_js_space_def)
      then have 1: "\<not> sublist ''var('' (name @ sep)"
        using set_mono_sublist [of "''var(''" "name @ sep"] by auto
      have 2: "joinSafe (last (name @ sep))"
      proof (cases "sep = []")
        case True
        with assms(5) show ?thesis by simp
      next
        case False
        then have "last sep \<in> set sep" by simp
        then have "joinSafe (last sep)" using sepOk_chars [OF so] sep_joinSafe by blast
        with False show ?thesis by simp
      qed
      from 1 2 IH Var True show ?thesis by simp
    next
      case False
      with Cons.prems Var IH so' show ?thesis by simp
    qed
  qed
qed

text \<open>A closed token occurs in a separated font stack only as one of its token pieces.\<close>

lemma token_piece_suffix:
  assumes "CHR '')'' \<notin> set i0"
  shows "separated ps \<Longrightarrow> suffix r (render ps) \<Longrightarrow> prefix (''var('' @ i0 @ '')'') r \<Longrightarrow>
         \<exists>sep. Var i0 sep \<in> set ps"
proof (induction ps)
  case Nil
  then show ?case by simp
next
  case (Cons p ps)
  let ?tok = "''var('' @ i0 @ '')''"
  have var: "prefix ''var('' r"
    using Cons.prems(3) var_prefix_token [of i0] prefix_order.trans by blast
  have sp: "separated ps" using Cons.prems(1) by (cases p) simp_all
  have later: ?case if "suffix r (render ps)"
    using Cons.IH [OF sp that Cons.prems(3)] by auto
  show ?case
  proof (cases p)
    case (Plain t)
    from Cons.prems(2) Plain consider "suffix r (render ps)"
      | x2 where "r = x2 @ render ps" "suffix x2 t"
      by (auto simp: suffix_append)
    then show ?thesis
    proof cases
      case 1
      then show ?thesis by (rule later)
    next
      case 2
      show ?thesis
      proof (cases "x2 = []")
        case True
        with 2 show ?thesis by (intro later) simp
      next
        case False
        from Cons.prems(1) Plain have "separated (Plain t # ps)" by simp
        from plain_no_var_start [OF this 2(2) False] 2(1) have "\<not> prefix ''var('' r"
          by simp
        with var show ?thesis by simp
      qed
    qed
  next
    case (Var inner sep)
    define x where "x = ''var('' @ inner @ '')'' @ sep"
    from Cons.prems(1) Var have ci: "CHR '')'' \<notin> set inner" by simp
    have "render (p # ps) = x @ render ps" using Var by (simp add: x_def)
    with Cons.prems(2) consider "suffix r (render ps)"
      | x2 where "r = x2 @ render ps" "suffix x2 x"
      using suffix_append [of r x "render ps"] by auto
    then show ?thesis
    proof cases
      case 1
      then show ?thesis by (rule later)
    next
      case 2
      show ?thesis
      proof (cases "x2 = []")
        case True
        with 2 show ?thesis by (intro later) simp
      next
        case ne: False
        show ?thesis
        proof (cases "x2 = x")
          case True
          with 2 Cons.prems(3) have "prefix ?tok ((''var('' @ inner @ '')'' @ sep) @ render ps)"
            by (simp add: x_def)
          then have "i0 = inner" by (rule token_prefix_eq [OF assms ci])
          with Var show ?thesis by auto
        next
          case False
          have "x = CHR ''v'' # (''ar('' @ inner @ '')'' @ sep)" by (simp add: x_def)
          with 2(2) False have "suffix x2 (''ar('' @ inner @ '')'' @ sep)"
            by (metis suffix_Cons)
          moreover from Cons.prems(1) Var have "separated (Var inner sep # ps)" by simp
          ultimately have "\<not> prefix ''var('' (x2 @ render ps)"
            using ne token_no_var_start by blast
          with var 2 show ?thesis by simp
        qed
      qed
    qed
  qed
qed

lemma token_piece:
  assumes "separated ps" and "CHR '')'' \<notin> set i0"
    and "sublist (''var('' @ i0 @ '')'') (render ps)"
  shows "\<exists>sep. Var i0 sep \<in> set ps"
proof -
  from assms(3) obtain r where "suffix r (render ps)" "prefix (''var('' @ i0 @ '')'') r"
    by (auto simp: sublist_altdef')
  with token_piece_suffix [OF assms(2,1)] show ?thesis by blast
qed

section \<open>Font-family normalisation of separated font stacks\<close>

lemma name_facts:
  "x \<in> {name_jetbrains, name_fira, name_source} \<Longrightarrow>
   x \<noteq> [] \<and> \<not> startsSep x \<and> CHR ''v'' \<notin> set x \<and> joinSafe (last x)"
  by (auto simp: token_defs startsSep_def is_js_space_def joinSafe_def)

lemma substituteKnown_pieces:
  assumes "separated ps"
  shows "substituteKnown (render ps) = render (knownPieces ps)"
    and "separated (knownPieces ps)"
proof -
  let ?p1 = "map (subst1 ''--font-jetbrains-mono'' name_jetbrains) ps"
  let ?p2 = "map (subst1 ''--font-fira-code'' name_fira) ?p1"
  have s1: "separated ?p1"
    by (rule separated_subst [OF assms]) (use name_facts [of name_jetbrains] in simp_all)
  have s2: "separated ?p2"
    by (rule separated_subst [OF s1]) (use name_facts [of name_fira] in simp_all)
  show "separated (knownPieces ps)"
    unfolding knownPieces_def
    by (rule separated_subst [OF s2]) (use name_facts [of name_source] in simp_all)
  have t: "tok_jetbrains = ''var('' @ ''--font-jetbrains-mono'' @ '')''"
    "tok_fira = ''var('' @ ''--font-fira-code'' @ '')''"
    "tok_source = ''var('' @ ''--font-source-code-pro'' @ '')''"
    by (simp_all add: token_defs)
  have 1: "replace_g (lit_match tok_jetbrains) name_jetbrains (render ps) = render ?p1"
    unfolding t by (rule subst_replace [OF assms]) simp
  have 2: "replace_g (lit_match tok_fira) name_fira (render ?p1) = render ?p2"
    unfolding t by (rule subst_replace [OF s1]) simp
  have 3: "replace_g (lit_match tok_source) name_source (render ?p2) = render (knownPieces ps)"
    unfolding t knownPieces_def by (rule subst_replace [OF s2]) simp
  show "substituteKnown (render ps) = render (knownPieces ps)"
    by (simp only: substituteKnown_def 1 2 3)
qed

lemma subst_hit: "Var i0 sep \<in> set ps \<Longrightarrow> Plain (name @ sep) \<in> set (map (subst1 i0 name) ps)"
  by (force simp: image_iff)

lemma subst_keep_var:
  "Var i sep \<in> set ps \<Longrightarrow> i \<noteq> i0 \<Longrightarrow> Var i sep \<in> set (map (subst1 i0 name) ps)"
  by (force simp: image_iff)

lemma subst_keep_plain: "Plain t \<in> set ps \<Longrightarrow> Plain t \<in> set (map (subst1 i0 name) ps)"
  by (force simp: image_iff)

lemma known_name_in_texts:
  assumes "separated ps"
  shows "sublist tok_jetbrains (render ps) \<Longrightarrow> sublist name_jetbrains (texts (knownPieces ps))"
    and "sublist tok_fira (render ps) \<Longrightarrow> sublist name_fira (texts (knownPieces ps))"
    and "sublist tok_source (render ps) \<Longrightarrow> sublist name_source (texts (knownPieces ps))"
proof -
  have fin: "sublist name (texts qs)" if "Plain (name @ sep) \<in> set qs" for name sep qs
  proof -
    from that have "sublist (name @ sep) (texts qs)" by (rule plain_in_texts)
    then show ?thesis using sublist_append_rightI sublist_order.order_trans by blast
  qed
  {
    assume "sublist tok_jetbrains (render ps)"
    then have "sublist (''var('' @ ''--font-jetbrains-mono'' @ '')'') (render ps)"
      by (simp add: token_defs)
    then obtain sep where "Var ''--font-jetbrains-mono'' sep \<in> set ps"
      using token_piece [OF assms, of "''--font-jetbrains-mono''"] by auto
    then have "Plain (name_jetbrains @ sep) \<in> set (knownPieces ps)"
      unfolding knownPieces_def by (intro subst_keep_plain subst_hit)
    then show "sublist name_jetbrains (texts (knownPieces ps))" by (rule fin)
  }
  {
    assume "sublist tok_fira (render ps)"
    then have "sublist (''var('' @ ''--font-fira-code'' @ '')'') (render ps)"
      by (simp add: token_defs)
    then obtain sep where "Var ''--font-fira-code'' sep \<in> set ps"
      using token_piece [OF assms, of "''--font-fira-code''"] by auto
    then have "Var ''--font-fira-code'' sep
        \<in> set (map (subst1 ''--font-jetbrains-mono'' name_jetbrains) ps)"
      by (rule subst_keep_var) simp
    then have "Plain (name_fira @ sep) \<in> set (knownPieces ps)"
      unfolding knownPieces_def by (intro subst_keep_plain subst_hit)
    then show "sublist name_fira (texts (knownPieces ps))" by (rule fin)
  }
  {
    assume "sublist tok_source (render ps)"
    then have "sublist (''var('' @ ''--font-source-code-pro'' @ '')'') (render ps)"
      by (simp add: token_defs)
    then obtain sep where "Var ''--font-source-code-pro'' sep \<in> set ps"
      using token_piece [OF assms, of "''--font-source-code-pro''"] by auto
    then have "Var ''--font-source-code-pro'' sep
        \<in> set (map (subst1 ''--font-jetbrains-mono'' name_jetbrains) ps)"
      by (rule subst_keep_var) simp
    then have "Var ''--font-source-code-pro'' sep
        \<in> set (map (subst1 ''--font-fira-code'' name_fira)
            (map (subst1 ''--font-jetbrains-mono'' name_jetbrains) ps))"
      by (rule subst_keep_var) simp
    then have "Plain (name_source @ sep) \<in> set (knownPieces ps)"
      unfolding knownPieces_def by (rule subst_hit)
    then show "sublist name_source (texts (knownPieces ps))" by (rule fin)
  }
qed

lemma generic_from_input:
  assumes "separated ps"
    and "has_generic (trim (replace_g collapse_match '', ''
          (replace_g var_match [] (substituteKnown (render ps)))))"
  shows "has_generic (render ps)"
proof -
  note k = substituteKnown_pieces [OF assms(1)]
  have bk: "sublist y (render ps)"
    if y: "y \<in> {''monospace'', ''serif''}"
      and sub: "sublist y (trim (replace_g collapse_match '', ''
          (replace_g var_match [] (substituteKnown (render ps)))))" for y
  proof -
    from sub have "sublist y (replace_g var_match [] (substituteKnown (render ps)))"
      by (rule collapse_trim_back [rotated 3]) (use y in auto)
    then have "sublist y (texts (knownPieces ps))"
      by (simp add: k(1) strip_texts [OF k(2)])
    then obtain t where t: "Plain t \<in> set (knownPieces ps)" "sublist y t"
      using texts_occurrence [OF k(2), of y] y by (auto simp: joinSafe_def)
    from t(1) have "sublist t (render (knownPieces ps))" by (rule plain_in_render)
    with t(2) have "sublist y (substituteKnown (render ps))"
      using k(1) sublist_order.order_trans by metis
    then show ?thesis
      by (rule substitute_back [rotated 5]) (use y in \<open>auto simp: token_defs sublist_code\<close>)
  qed
  have ss: "sublist ''serif'' ''sans-serif''" by (simp add: sublist_code)
  from assms(2) consider
    "sublist ''monospace'' (trim (replace_g collapse_match '', ''
          (replace_g var_match [] (substituteKnown (render ps)))))"
    | "sublist ''serif'' (trim (replace_g collapse_match '', ''
          (replace_g var_match [] (substituteKnown (render ps)))))"
    unfolding has_generic_def using ss sublist_order.order_trans by blast
  then show ?thesis
  proof cases
    case 1
    then have "sublist ''monospace'' (render ps)" by (intro bk) simp_all
    then show ?thesis by (simp add: has_generic_def)
  next
    case 2
    then have "sublist ''serif'' (render ps)" by (intro bk) simp_all
    then show ?thesis by (simp add: has_generic_def)
  qed
qed

text \<open>
  C7 (font-family normalisation), as the code has it.

  For every separated font stack, that is, every font-family string made of plain text and
  closed tokens \<open>var(...)\<close> in which no token is nested in another or left open, and in which
  the text in front of a token ends in a character that occurs in none of \<open>var(\<close>,
  \<open>monospace\<close> and \<open>serif\<close>: the output is the plain text of the stack, each known token
  replaced by its quoted family name and every other token left out with its separator,
  collapsed and trimmed, and followed by \<open>, monospace\<close> if it names no generic family; for
  each known token that the input contains, the output contains the quoted family name; the
  output contains no \<open>var(\<close>, so neither a raw known token nor a token that is not known;
  and if the input contains no generic family, the output ends in the one fallback
  \<open>, monospace\<close> and holds no other \<open>monospace\<close>.
\<close>

theorem normalizeFontFamily_separated:
  assumes "separated ps"
  shows "normalizeFontFamily (render ps) =
           (if has_generic (trim (replace_g collapse_match '', '' (texts (knownPieces ps))))
            then trim (replace_g collapse_match '', '' (texts (knownPieces ps)))
            else trim (replace_g collapse_match '', '' (texts (knownPieces ps))) @ '', monospace'') \<and>
         (sublist tok_jetbrains (render ps) \<longrightarrow>
            sublist name_jetbrains (normalizeFontFamily (render ps))) \<and>
         (sublist tok_fira (render ps) \<longrightarrow>
            sublist name_fira (normalizeFontFamily (render ps))) \<and>
         (sublist tok_source (render ps) \<longrightarrow>
            sublist name_source (normalizeFontFamily (render ps))) \<and>
         \<not> sublist tok_jetbrains (normalizeFontFamily (render ps)) \<and>
         \<not> sublist tok_fira (normalizeFontFamily (render ps)) \<and>
         \<not> sublist tok_source (normalizeFontFamily (render ps)) \<and>
         \<not> sublist ''var('' (normalizeFontFamily (render ps)) \<and>
         (\<not> has_generic (render ps) \<longrightarrow>
            normalizeFontFamily (render ps) =
              trim (replace_g collapse_match '', '' (texts (knownPieces ps))) @ '', monospace'' \<and>
            \<not> sublist ''monospace''
              (trim (replace_g collapse_match '', '' (texts (knownPieces ps)))))"
proof -
  let ?s = "render ps"
  let ?core = "trim (replace_g collapse_match '', '' (replace_g var_match [] (substituteKnown ?s)))"
  note k = substituteKnown_pieces [OF assms]
  have strip: "replace_g var_match [] (substituteKnown ?s) = texts (knownPieces ps)"
    by (simp add: k(1) strip_texts [OF k(2)])
  have out: "normalizeFontFamily ?s = (if has_generic ?core then ?core else ?core @ '', monospace'')"
    by (simp add: normalize_eq)
  have core: "?core = trim (replace_g collapse_match '', '' (texts (knownPieces ps)))"
    by (simp only: strip)
  have keep: "sublist x (normalizeFontFamily ?s)"
    if "sublist x (texts (knownPieces ps))" "x \<in> {name_jetbrains, name_fira, name_source}" for x
  proof -
    from that have "sublist x ?core" unfolding strip by (rule name_survives)
    then show ?thesis by (simp add: out sublist_append_right)
  qed
  have novar: "\<not> sublist ''var('' (normalizeFontFamily ?s)"
  proof (rule output_no_var)
    show "\<not> sublist ''var('' (replace_g var_match [] (substituteKnown ?s))"
      using strip_no_var [OF k(2)] by (simp add: k(1))
  qed
  have notok: "\<not> sublist t (normalizeFontFamily ?s)"
    if "t \<in> {tok_jetbrains, tok_fira, tok_source}" for t
  proof
    assume "sublist t (normalizeFontFamily ?s)"
    moreover have "sublist ''var('' t" using that by (auto simp: token_defs sublist_code)
    ultimately have "sublist ''var('' (normalizeFontFamily ?s)"
      using sublist_order.order_trans by blast
    with novar show False by simp
  qed
  have fallback: "normalizeFontFamily ?s = ?core @ '', monospace'' \<and> \<not> sublist ''monospace'' ?core"
    if "\<not> has_generic ?s"
  proof -
    from that have "\<not> has_generic ?core" using generic_from_input [OF assms] by blast
    then show ?thesis using out by (simp add: has_generic_def)
  qed
  show ?thesis
    using keep [OF known_name_in_texts(1) [OF assms]] keep [OF known_name_in_texts(2) [OF assms]]
      keep [OF known_name_in_texts(3) [OF assms]] novar notok fallback out
    unfolding core by simp
qed

theorem normalizeFontFamily_separated_witness:
  "normalizeFontFamily (render fontPieces) =
     name_jetbrains @ '', '' @ name_fira @ '', '' @ name_source @ '',  Arial, monospace'' \<and>
   normalizeFontFamily (render fontPiecesGeneric) = name_fira @ '',  monospace'' \<and>
   (separated fontPieces \<and>
   sublist tok_jetbrains (render fontPieces) \<and>
   sublist tok_fira (render fontPieces) \<and>
   sublist tok_source (render fontPieces) \<and>
   sublist ''var(--font-space-mono)'' (render fontPieces) \<and>
   \<not> has_generic (render fontPieces) \<and>
   sublist name_jetbrains (normalizeFontFamily (render fontPieces)) \<and>
   sublist name_fira (normalizeFontFamily (render fontPieces)) \<and>
   sublist name_source (normalizeFontFamily (render fontPieces)) \<and>
   \<not> sublist ''var('' (normalizeFontFamily (render fontPieces)) \<and>
   normalizeFontFamily (render fontPieces) =
     trim (replace_g collapse_match '', '' (texts (knownPieces fontPieces))) @ '', monospace'' \<and>
   \<not> sublist ''monospace''
     (trim (replace_g collapse_match '', '' (texts (knownPieces fontPieces))))) \<and>
   (separated fontPiecesGeneric \<and>
   render fontPiecesGeneric = ''var(--font-fira-code), var(--font-space-mono), monospace'' \<and>
   sublist tok_fira (render fontPiecesGeneric) \<and>
   sublist name_fira (normalizeFontFamily (render fontPiecesGeneric)) \<and>
   \<not> sublist tok_fira (normalizeFontFamily (render fontPiecesGeneric)) \<and>
   \<not> sublist ''var('' (normalizeFontFamily (render fontPiecesGeneric)))"
proof -
  have sep: "separated fontPieces"
    by (simp add: fontPieces_def sepOk_def startsSep_def is_js_space_def joinSafe_def sublist_code)
  have r: "render fontPieces =
      ''var(--font-jetbrains-mono), var(--font-fira-code), var(--font-source-code-pro), var(--font-space-mono), Arial''"
    by (simp add: fontPieces_def)
  have t: "sublist tok_jetbrains (render fontPieces)" "sublist tok_fira (render fontPieces)"
    "sublist tok_source (render fontPieces)"
    "sublist ''var(--font-space-mono)'' (render fontPieces)"
    "\<not> has_generic (render fontPieces)"
    unfolding r by (simp_all add: token_defs sublist_code has_generic_def)
  note A = normalizeFontFamily_separated [OF sep, THEN conjunct2]
  from A t(1) have a1: "sublist name_jetbrains (normalizeFontFamily (render fontPieces))"
    by (simp only: simp_thms)
  from A t(2) have a2: "sublist name_fira (normalizeFontFamily (render fontPieces))"
    by (simp only: simp_thms)
  from A t(3) have a3: "sublist name_source (normalizeFontFamily (render fontPieces))"
    by (simp only: simp_thms)
  from A have a4: "\<not> sublist ''var('' (normalizeFontFamily (render fontPieces))"
    by (simp only: simp_thms)
  from A t(5) have a5: "normalizeFontFamily (render fontPieces) =
     trim (replace_g collapse_match '', '' (texts (knownPieces fontPieces))) @ '', monospace''"
    by (simp only: simp_thms)
  from A t(5) have a6: "\<not> sublist ''monospace''
     (trim (replace_g collapse_match '', '' (texts (knownPieces fontPieces))))"
    by (simp only: simp_thms)
  from sep t a1 a2 a3 a4 a5 a6 have props: "separated fontPieces \<and>
   sublist tok_jetbrains (render fontPieces) \<and>
   sublist tok_fira (render fontPieces) \<and>
   sublist tok_source (render fontPieces) \<and>
   sublist ''var(--font-space-mono)'' (render fontPieces) \<and>
   \<not> has_generic (render fontPieces) \<and>
   sublist name_jetbrains (normalizeFontFamily (render fontPieces)) \<and>
   sublist name_fira (normalizeFontFamily (render fontPieces)) \<and>
   sublist name_source (normalizeFontFamily (render fontPieces)) \<and>
   \<not> sublist ''var('' (normalizeFontFamily (render fontPieces)) \<and>
   normalizeFontFamily (render fontPieces) =
     trim (replace_g collapse_match '', '' (texts (knownPieces fontPieces))) @ '', monospace'' \<and>
   \<not> sublist ''monospace''
     (trim (replace_g collapse_match '', '' (texts (knownPieces fontPieces))))"
    by (simp only: simp_thms)
  have val: "normalizeFontFamily (render fontPieces) =
     name_jetbrains @ '', '' @ name_fira @ '', '' @ name_source @ '',  Arial, monospace''"
    by (simp add: fontPieces_def normalize_defs token_defs)
  have sep2: "separated fontPiecesGeneric"
    by (simp add: fontPiecesGeneric_def sepOk_def startsSep_def is_js_space_def joinSafe_def
        sublist_code)
  have r2: "render fontPiecesGeneric = ''var(--font-fira-code), var(--font-space-mono), monospace''"
    by (simp add: fontPiecesGeneric_def)
  have t2: "sublist tok_fira (render fontPiecesGeneric)"
    unfolding r2 by (simp add: token_defs sublist_code)
  note B = normalizeFontFamily_separated [OF sep2, THEN conjunct2]
  from B t2 have b1: "sublist name_fira (normalizeFontFamily (render fontPiecesGeneric))"
    by (simp only: simp_thms)
  from B have b2: "\<not> sublist tok_fira (normalizeFontFamily (render fontPiecesGeneric))"
    by (simp only: simp_thms)
  from B have b3: "\<not> sublist ''var('' (normalizeFontFamily (render fontPiecesGeneric))"
    by (simp only: simp_thms)
  from sep2 r2 t2 b1 b2 b3 have props2: "separated fontPiecesGeneric \<and>
   render fontPiecesGeneric = ''var(--font-fira-code), var(--font-space-mono), monospace'' \<and>
   sublist tok_fira (render fontPiecesGeneric) \<and>
   sublist name_fira (normalizeFontFamily (render fontPiecesGeneric)) \<and>
   \<not> sublist tok_fira (normalizeFontFamily (render fontPiecesGeneric)) \<and>
   \<not> sublist ''var('' (normalizeFontFamily (render fontPiecesGeneric))"
    by blast
  have val2: "normalizeFontFamily (render fontPiecesGeneric) = name_fira @ '',  monospace''"
    by (simp add: fontPiecesGeneric_def normalize_defs token_defs)
  from props props2 have both: "(separated fontPieces \<and>
   sublist tok_jetbrains (render fontPieces) \<and>
   sublist tok_fira (render fontPieces) \<and>
   sublist tok_source (render fontPieces) \<and>
   sublist ''var(--font-space-mono)'' (render fontPieces) \<and>
   \<not> has_generic (render fontPieces) \<and>
   sublist name_jetbrains (normalizeFontFamily (render fontPieces)) \<and>
   sublist name_fira (normalizeFontFamily (render fontPieces)) \<and>
   sublist name_source (normalizeFontFamily (render fontPieces)) \<and>
   \<not> sublist ''var('' (normalizeFontFamily (render fontPieces)) \<and>
   normalizeFontFamily (render fontPieces) =
     trim (replace_g collapse_match '', '' (texts (knownPieces fontPieces))) @ '', monospace'' \<and>
   \<not> sublist ''monospace''
     (trim (replace_g collapse_match '', '' (texts (knownPieces fontPieces))))) \<and>
   (separated fontPiecesGeneric \<and>
   render fontPiecesGeneric = ''var(--font-fira-code), var(--font-space-mono), monospace'' \<and>
   sublist tok_fira (render fontPiecesGeneric) \<and>
   sublist name_fira (normalizeFontFamily (render fontPiecesGeneric)) \<and>
   \<not> sublist tok_fira (normalizeFontFamily (render fontPiecesGeneric)) \<and>
   \<not> sublist ''var('' (normalizeFontFamily (render fontPiecesGeneric)))"
    by (rule conjI)
  from val2 both have vb: "normalizeFontFamily (render fontPiecesGeneric) = name_fira @ '',  monospace'' \<and>
   (separated fontPieces \<and>
   sublist tok_jetbrains (render fontPieces) \<and>
   sublist tok_fira (render fontPieces) \<and>
   sublist tok_source (render fontPieces) \<and>
   sublist ''var(--font-space-mono)'' (render fontPieces) \<and>
   \<not> has_generic (render fontPieces) \<and>
   sublist name_jetbrains (normalizeFontFamily (render fontPieces)) \<and>
   sublist name_fira (normalizeFontFamily (render fontPieces)) \<and>
   sublist name_source (normalizeFontFamily (render fontPieces)) \<and>
   \<not> sublist ''var('' (normalizeFontFamily (render fontPieces)) \<and>
   normalizeFontFamily (render fontPieces) =
     trim (replace_g collapse_match '', '' (texts (knownPieces fontPieces))) @ '', monospace'' \<and>
   \<not> sublist ''monospace''
     (trim (replace_g collapse_match '', '' (texts (knownPieces fontPieces))))) \<and>
   (separated fontPiecesGeneric \<and>
   render fontPiecesGeneric = ''var(--font-fira-code), var(--font-space-mono), monospace'' \<and>
   sublist tok_fira (render fontPiecesGeneric) \<and>
   sublist name_fira (normalizeFontFamily (render fontPiecesGeneric)) \<and>
   \<not> sublist tok_fira (normalizeFontFamily (render fontPiecesGeneric)) \<and>
   \<not> sublist ''var('' (normalizeFontFamily (render fontPiecesGeneric)))"
    by (rule conjI)
  from val vb show ?thesis by (rule conjI)
qed

text \<open>
  C7 as stated fails on inputs in which tokens are nested or are joined by the strip step:
  in \<open>var(var(--font-fira-code))\<close> the known token is replaced and the result is then
  stripped as a whole, so the family name is missing from the output; in
  \<open>var(--font-fira-code) vvar(x)ar(--font-fira-code)\<close> the removal of \<open>var(x)\<close> joins a raw
  known token, which stays in the output; and \<open>sevar(x)rif\<close>, which contains no generic
  family, becomes \<open>serif\<close> and gets no fallback.
\<close>

theorem normalizeFontFamily_counterexample:
  "sublist tok_fira ''var(var(--font-fira-code))'' \<and>
   \<not> sublist name_fira (normalizeFontFamily ''var(var(--font-fira-code))'') \<and>
   sublist tok_fira ''var(--font-fira-code) vvar(x)ar(--font-fira-code)'' \<and>
   sublist tok_fira (normalizeFontFamily ''var(--font-fira-code) vvar(x)ar(--font-fira-code)'') \<and>
   \<not> has_generic ''sevar(x)rif'' \<and>
   normalizeFontFamily ''sevar(x)rif'' = ''serif''"
proof -
  have a: "normalizeFontFamily ''var(var(--font-fira-code))'' = '', monospace''"
    by (simp add: normalize_defs token_defs)
  have b: "normalizeFontFamily ''var(--font-fira-code) vvar(x)ar(--font-fira-code)''
      = name_fira @ '' var(--font-fira-code), monospace''"
    by (simp add: normalize_defs token_defs)
  have c: "normalizeFontFamily ''sevar(x)rif'' = ''serif''"
    by (simp add: normalize_defs token_defs)
  show ?thesis
    by (simp add: a b c) (simp add: token_defs sublist_code has_generic_def)
qed

end
